theory Spec2Isabelle
  imports Complex_Main "HOL-Library.Multiset"
begin

section \<open>Data model of synthaser/results.py\<close>

text \<open>
  A hit is an instance of the class \<open>Domain\<close>. Python lists hold references to such
  objects, and \<open>filter_domains\<close> assigns to the attribute \<open>end\<close> of an object that the
  caller's list also holds, so hits live in a store: a reference is a natural number and
  the store maps every reference to the current attribute values of its object.
  The attribute \<open>end\<close> is named \<open>end_pos\<close> here. Python floats (e-value, bit score and
  the two percentages) are modelled as exact rationals: no rounding and no NaN.
\<close>

record Domain =
  pssm :: string
  type :: string
  domain :: string
  start :: int
  end_pos :: int
  evalue :: rat
  bitscore :: rat
  partial :: string
  accession :: string
  superfamily :: string

type_synonym ref = nat

text \<open>
  One value of the global dictionary \<open>DOMAINS\<close>. Its contents come from
  \<open>synthaser/domains.json\<close>, which is not part of the sources, so the dictionary is a
  component of the program state and the theorems hold for every content. The three keys
  the code reads, \<open>"type"\<close>, \<open>"length"\<close> and \<open>"bitscore"\<close>, are the fields of an entry.
\<close>

record entry =
  etype :: string
  elength :: int
  ebitscore :: rat

record state =
  heap :: "ref \<Rightarrow> Domain"
  DOMAINS :: "string \<Rightarrow> entry option"

datatype value_error = SameTypeExpected | MetricExpected | NotEnoughValues

datatype error = ValueError value_error | KeyError string | IndexError | ZeroDivisionError

text \<open>
  Modelled from the spec: \<open>Domain.__len__\<close> of \<open>synthaser/models.py\<close>, which is not
  among the sources. The spec gives the derived attribute \<open>length = end - start\<close>, with
  \<open>start \<le> end\<close>; the builtin \<open>len\<close> raises on a negative or a huge result of
  \<open>__len__\<close>, which is not modelled.
\<close>

definition len :: "Domain \<Rightarrow> int" where
  "len d = end_pos d - start d"

section \<open>is_fragmented_domain\<close>

text \<open>
  The products \<open>pssm_length * coverage_pct\<close> and \<open>pssm_length * tolerance_pct\<close> are exact
  here, where the source rounds them to doubles: a comparison whose two sides are closer
  than that rounding can come out differently in the source. The general theorems about
  the scan hold for every outcome of this test, and the concrete inputs keep every
  comparison away from its bound.
\<close>

definition is_fragmented_domain :: "state \<Rightarrow> ref \<Rightarrow> ref \<Rightarrow> rat \<Rightarrow> rat \<Rightarrow> error + bool" where
  "is_fragmented_domain s one two coverage_pct tolerance_pct =
     (if type (heap s one) \<noteq> type (heap s two) then Inl (ValueError SameTypeExpected)
      else case DOMAINS s (domain (heap s one)) of
        None \<Rightarrow> Inl (KeyError (domain (heap s one)))
      | Some e \<Rightarrow>
          (let pssm_length = of_int (elength e);
               coverage = pssm_length * coverage_pct;
               tolerance = pssm_length * tolerance_pct;
               one_length = of_int (len (heap s one));
               two_length = of_int (len (heap s two))
           in Inr (one_length < coverage
                 \<and> two_length < coverage
                 \<and> pssm_length - tolerance \<le> of_int (end_pos (heap s two) - start (heap s one))
                 \<and> of_int (end_pos (heap s two) - start (heap s one)) \<le> pssm_length + tolerance
                 \<and> one_length + two_length > coverage)))"

section \<open>choose_representative_domain\<close>

text \<open>
  The table \<open>key_functions\<close>: a key function and the \<open>reverse\<close> flag for each metric.
  A key function can raise: \<open>KeyError\<close> when the hit's domain is not in \<open>DOMAINS\<close>,
  \<open>ZeroDivisionError\<close> when the bit score threshold is zero.
\<close>

definition key_functions :: "state \<Rightarrow> string \<Rightarrow> ((ref \<Rightarrow> error + rat) \<times> bool) option" where
  "key_functions s by_metric =
     (if by_metric = ''bitscore'' then
        Some (\<lambda>d. case DOMAINS s (domain (heap s d)) of
                     None \<Rightarrow> Inl (KeyError (domain (heap s d)))
                   | Some e \<Rightarrow> if ebitscore e = 0 then Inl ZeroDivisionError
                              else Inr (bitscore (heap s d) / ebitscore e), True)
      else if by_metric = ''evalue'' then
        Some (\<lambda>d. Inr (evalue (heap s d)), False)
      else if by_metric = ''length'' then
        Some (\<lambda>d. Inr (of_int (end_pos (heap s d) - start (heap s d))), True)
      else None)"

text \<open>
  Python's \<open>sorted(xs, key=key, reverse=reverse)\<close>: the keys of all elements are computed
  first, in list order (the first exception ends the call); the sort is stable; with
  \<open>reverse\<close> the list is reversed, sorted and reversed again, which keeps equal keys in
  their original order.
\<close>

fun key_values :: "(ref \<Rightarrow> error + rat) \<Rightarrow> ref list \<Rightarrow> error + (rat \<times> ref) list" where
  "key_values key [] = Inr []"
| "key_values key (d # ds) =
     (case key d of
        Inl e \<Rightarrow> Inl e
      | Inr k \<Rightarrow> (case key_values key ds of
                   Inl e \<Rightarrow> Inl e
                 | Inr kds \<Rightarrow> Inr ((k, d) # kds)))"

definition sorted_by_key :: "(ref \<Rightarrow> error + rat) \<Rightarrow> bool \<Rightarrow> ref list \<Rightarrow> error + ref list" where
  "sorted_by_key key reverse xs =
     (case key_values key xs of
        Inl e \<Rightarrow> Inl e
      | Inr kds \<Rightarrow> Inr (map snd (if reverse then rev (sort_key fst (rev kds))
                                 else sort_key fst kds)))"

definition choose_representative_domain :: "state \<Rightarrow> ref list \<Rightarrow> string \<Rightarrow> error + ref" where
  "choose_representative_domain s grp by_metric =
     (case key_functions s by_metric of
        None \<Rightarrow> Inl (ValueError MetricExpected)
      | Some (key, reverse) \<Rightarrow>
          (case sorted_by_key key reverse grp of
             Inl e \<Rightarrow> Inl e
           | Inr [] \<Rightarrow> Inl IndexError
           | Inr (best # _) \<Rightarrow> Inr best))"

section \<open>group_overlapping_hits\<close>

text \<open>
  The generator is modelled by the list of the groups it yields, in the order of the
  yields. \<open>group_loop\<close> is the \<open>for\<close> loop with its two variables \<open>group\<close> (here \<open>grp\<close>) and \<open>border\<close>.
\<close>

fun group_loop :: "state \<Rightarrow> ref list \<Rightarrow> int \<Rightarrow> ref list \<Rightarrow> ref list list" where
  "group_loop s grp border [] = [grp]"
| "group_loop s grp border (d # sorted_domains) =
     (if start (heap s d) + 10 \<le> border
      then group_loop s (grp @ [d]) (max border (end_pos (heap s d))) sorted_domains
      else grp # group_loop s [d] (end_pos (heap s d)) sorted_domains)"

definition group_overlapping_hits :: "state \<Rightarrow> ref list \<Rightarrow> ref list list" where
  "group_overlapping_hits s domains =
     (case sort_key (\<lambda>d. start (heap s d)) domains of
        [] \<Rightarrow> []
      | first # sorted_domains \<Rightarrow> group_loop s [first] (end_pos (heap s first)) sorted_domains)"

section \<open>filter_domains\<close>

text \<open>The list comprehension: one representative per group, the first exception ends it.\<close>

fun representatives :: "state \<Rightarrow> ref list list \<Rightarrow> string \<Rightarrow> error + ref list" where
  "representatives s [] by_metric = Inr []"
| "representatives s (grp # groups) by_metric =
     (case choose_representative_domain s grp by_metric of
        Inl e \<Rightarrow> Inl e
      | Inr d \<Rightarrow> (case representatives s groups by_metric of
                   Inl e \<Rightarrow> Inl e
                 | Inr ds \<Rightarrow> Inr (d # ds)))"

text \<open>
  The \<open>while\<close> loop. \<open>total\<close> (here \<open>tot\<close>) is the length of the list before the loop and is never
  assigned again. The slice \<open>domains[i - 1 : i + 1]\<close> is unpacked into two names, which
  raises \<open>ValueError\<close> when it has fewer than two elements. \<open>previous.end = current.end\<close>
  writes to the store; \<open>del domains[i]\<close> shortens the list.
\<close>

definition set_end :: "state \<Rightarrow> ref \<Rightarrow> int \<Rightarrow> state" where
  "set_end s r e = s\<lparr>heap := (heap s)(r := (heap s r)\<lparr>end_pos := e\<rparr>)\<rparr>"

definition del_at :: "nat \<Rightarrow> 'a list \<Rightarrow> 'a list" where
  "del_at i xs = take i xs @ drop (Suc i) xs"

function scan_loop ::
  "nat \<Rightarrow> nat \<Rightarrow> state \<Rightarrow> ref list \<Rightarrow> rat \<Rightarrow> rat \<Rightarrow> error + (state \<times> ref list)" where
  "scan_loop i tot s domains coverage_pct tolerance_pct =
     (if i < tot then
        (if i + 1 = tot then Inr (s, domains)
         else case drop (i - 1) (take (i + 1) domains) of
           [previous, current] \<Rightarrow>
             (if type (heap s previous) = type (heap s current) then
                (case is_fragmented_domain s previous current coverage_pct tolerance_pct of
                   Inl e \<Rightarrow> Inl e
                 | Inr True \<Rightarrow>
                     scan_loop i tot (set_end s previous (end_pos (heap s current)))
                       (del_at i domains) coverage_pct tolerance_pct
                 | Inr False \<Rightarrow> scan_loop (i + 1) tot s domains coverage_pct tolerance_pct)
              else scan_loop (i + 1) tot s domains coverage_pct tolerance_pct)
         | _ \<Rightarrow> Inl (ValueError NotEnoughValues))
      else Inr (s, domains))"
  by pat_completeness auto
termination
proof (relation "measure (\<lambda>(i, tot, s, domains, c, t). (tot - i) + length domains)")
  show "wf (measure (\<lambda>(i, tot, s, domains, c, t). (tot - i) + length domains))"
    by simp
next
  fix i tot :: nat and s :: state and domains :: "ref list" and coverage_pct tolerance_pct :: rat
    and x21 x22 x21a x22a and x2 :: bool
  assume a: "i < tot" "drop (i - 1) (take (i + 1) domains) = x21 # x22" "x22 = x21a # x22a"
  have "length (drop (i - 1) (take (i + 1) domains)) \<ge> 2"
    using a by simp
  then have "i < length domains"
    by (simp add: min_def split: if_splits)
  then have "length (del_at i domains) < length domains"
    by (simp add: del_at_def)
  then show "((i, tot, set_end s x21 (end_pos (heap s x21a)), del_at i domains,
               coverage_pct, tolerance_pct),
              (i, tot, s, domains, coverage_pct, tolerance_pct))
             \<in> measure (\<lambda>(i, tot, s, domains, c, t). (tot - i) + length domains)"
    by simp
qed auto

definition filter_domains ::
  "state \<Rightarrow> ref list \<Rightarrow> string \<Rightarrow> rat \<Rightarrow> rat \<Rightarrow> error + (state \<times> ref list)" where
  "filter_domains s domains by_metric coverage_pct tolerance_pct =
     (case representatives s (group_overlapping_hits s domains) by_metric of
        Inl e \<Rightarrow> Inl e
      | Inr ds \<Rightarrow> scan_loop 1 (length ds) s ds coverage_pct tolerance_pct)"

section \<open>filter_results\<close>

text \<open>
  The dictionary \<open>results\<close> is iterated in insertion order, so it is a list of pairs with
  distinct names. \<open>filtered\<close> is the dictionary under construction. \<open>LOG.error\<close> appends
  the query's name to the log and does not raise.
\<close>

fun filter_results_loop ::
  "state \<Rightarrow> (string \<Rightarrow> ref list option) \<Rightarrow> string list \<Rightarrow> (string \<times> ref list) list
     \<Rightarrow> string \<Rightarrow> rat \<Rightarrow> rat
     \<Rightarrow> error + (state \<times> (string \<Rightarrow> ref list option) \<times> string list)" where
  "filter_results_loop s filtered logged [] by_metric coverage_pct tolerance_pct =
     Inr (s, filtered, logged)"
| "filter_results_loop s filtered logged ((name, domains) # items) by_metric coverage_pct
       tolerance_pct =
     (case filter_domains s domains by_metric coverage_pct tolerance_pct of
        Inl e \<Rightarrow> Inl e
      | Inr (s', domains') \<Rightarrow>
          filter_results_loop s' (filtered(name \<mapsto> domains'))
            (if domains' = [] then logged @ [name] else logged)
            items by_metric coverage_pct tolerance_pct)"

definition filter_results ::
  "state \<Rightarrow> (string \<times> ref list) list \<Rightarrow> string \<Rightarrow> rat \<Rightarrow> rat
     \<Rightarrow> error + (state \<times> (string \<Rightarrow> ref list option) \<times> string list)" where
  "filter_results s results by_metric coverage_pct tolerance_pct =
     filter_results_loop s Map.empty [] results by_metric coverage_pct tolerance_pct"

section \<open>The store when a call is left\<close>

text \<open>
  An exception leaves a call after the writes made so far, and the hits written to are
  the caller's objects. The functions above give the error alone when an exception is
  raised. The functions of this section are the same code with the store at the moment
  the call is left as the first component, on every path: where the loop raises, it is
  the current store of the loop. \<open>outcome\<close> forgets the store of a raised exception.
\<close>

function scan_loop_store ::
  "nat \<Rightarrow> nat \<Rightarrow> state \<Rightarrow> ref list \<Rightarrow> rat \<Rightarrow> rat \<Rightarrow> state \<times> (error + ref list)" where
  "scan_loop_store i tot s domains coverage_pct tolerance_pct =
     (if i < tot then
        (if i + 1 = tot then (s, Inr domains)
         else case drop (i - 1) (take (i + 1) domains) of
           [previous, current] \<Rightarrow>
             (if type (heap s previous) = type (heap s current) then
                (case is_fragmented_domain s previous current coverage_pct tolerance_pct of
                   Inl e \<Rightarrow> (s, Inl e)
                 | Inr True \<Rightarrow>
                     scan_loop_store i tot (set_end s previous (end_pos (heap s current)))
                       (del_at i domains) coverage_pct tolerance_pct
                 | Inr False \<Rightarrow>
                     scan_loop_store (i + 1) tot s domains coverage_pct tolerance_pct)
              else scan_loop_store (i + 1) tot s domains coverage_pct tolerance_pct)
         | _ \<Rightarrow> (s, Inl (ValueError NotEnoughValues)))
      else (s, Inr domains))"
  by pat_completeness auto
termination
proof (relation "measure (\<lambda>(i, tot, s, domains, c, t). (tot - i) + length domains)")
  show "wf (measure (\<lambda>(i, tot, s, domains, c, t). (tot - i) + length domains))"
    by simp
next
  fix i tot :: nat and s :: state and domains :: "ref list" and coverage_pct tolerance_pct :: rat
    and x21 x22 x21a x22a and x2 :: bool
  assume a: "i < tot" "drop (i - 1) (take (i + 1) domains) = x21 # x22" "x22 = x21a # x22a"
  have "length (drop (i - 1) (take (i + 1) domains)) \<ge> 2"
    using a by simp
  then have "i < length domains"
    by (simp add: min_def split: if_splits)
  then have "length (del_at i domains) < length domains"
    by (simp add: del_at_def)
  then show "((i, tot, set_end s x21 (end_pos (heap s x21a)), del_at i domains,
               coverage_pct, tolerance_pct),
              (i, tot, s, domains, coverage_pct, tolerance_pct))
             \<in> measure (\<lambda>(i, tot, s, domains, c, t). (tot - i) + length domains)"
    by simp
qed auto

definition filter_domains_store ::
  "state \<Rightarrow> ref list \<Rightarrow> string \<Rightarrow> rat \<Rightarrow> rat \<Rightarrow> state \<times> (error + ref list)" where
  "filter_domains_store s domains by_metric coverage_pct tolerance_pct =
     (case representatives s (group_overlapping_hits s domains) by_metric of
        Inl e \<Rightarrow> (s, Inl e)
      | Inr ds \<Rightarrow> scan_loop_store 1 (length ds) s ds coverage_pct tolerance_pct)"

fun filter_results_loop_store ::
  "state \<Rightarrow> (string \<Rightarrow> ref list option) \<Rightarrow> string list \<Rightarrow> (string \<times> ref list) list
     \<Rightarrow> string \<Rightarrow> rat \<Rightarrow> rat
     \<Rightarrow> state \<times> (error + ((string \<Rightarrow> ref list option) \<times> string list))" where
  "filter_results_loop_store s filtered logged [] by_metric coverage_pct tolerance_pct =
     (s, Inr (filtered, logged))"
| "filter_results_loop_store s filtered logged ((name, domains) # items) by_metric
       coverage_pct tolerance_pct =
     (case filter_domains_store s domains by_metric coverage_pct tolerance_pct of
        (s', Inl e) \<Rightarrow> (s', Inl e)
      | (s', Inr domains') \<Rightarrow>
          filter_results_loop_store s' (filtered(name \<mapsto> domains'))
            (if domains' = [] then logged @ [name] else logged)
            items by_metric coverage_pct tolerance_pct)"

definition filter_results_store ::
  "state \<Rightarrow> (string \<times> ref list) list \<Rightarrow> string \<Rightarrow> rat \<Rightarrow> rat
     \<Rightarrow> state \<times> (error + ((string \<Rightarrow> ref list option) \<times> string list))" where
  "filter_results_store s results by_metric coverage_pct tolerance_pct =
     filter_results_loop_store s Map.empty [] results by_metric coverage_pct tolerance_pct"

definition outcome :: "state \<times> (error + 'a) \<Rightarrow> error + (state \<times> 'a)" where
  "outcome x = (case snd x of Inl e \<Rightarrow> Inl e | Inr a \<Rightarrow> Inr (fst x, a))"

section \<open>Concrete inputs\<close>

text \<open>
  Hits and a registry used to run the functions. \<open>store\<close> puts the hits of a list at the
  references \<open>0, 1, 2, ...\<close>. The single registry entry has PSSM length 1000.
\<close>

definition hit :: "string \<Rightarrow> string \<Rightarrow> int \<Rightarrow> int \<Rightarrow> rat \<Rightarrow> rat \<Rightarrow> Domain" where
  "hit t d a b e bs =
     \<lparr>pssm = ''0'', type = t, domain = d, start = a, end_pos = b, evalue = e,
      bitscore = bs, partial = ''-'', accession = ''-'', superfamily = ''-''\<rparr>"

definition registry :: "string \<Rightarrow> entry option" where
  "registry = [''Condensation'' \<mapsto> \<lparr>etype = ''C'', elength = 1000, ebitscore = 100\<rparr>]"

definition store :: "Domain list \<Rightarrow> state" where
  "store ds =
     \<lparr>heap = (\<lambda>r. if r < length ds then ds ! r else hit [] [] 0 0 0 0), DOMAINS = registry\<rparr>"

definition two_fragments :: state where
  "two_fragments =
     store [hit ''C'' ''Condensation'' 0 400 0 50, hit ''C'' ''Condensation'' 530 980 0 50]"

definition three_run :: state where
  "three_run =
     store [hit ''C'' ''Condensation'' 0 252 0 50, hit ''C'' ''Condensation'' 243 495 0 50,
            hit ''C'' ''Condensation'' 486 737 0 50]"

definition four_hits :: state where
  "four_hits =
     store [hit ''C'' ''Condensation'' 0 400 0 50, hit ''C'' ''Condensation'' 530 980 0 50,
            hit ''C'' ''Condensation'' 2000 2400 0 50,
            hit ''C'' ''Condensation'' 2530 2980 0 50]"

definition abc_hits :: state where
  "abc_hits =
     store [hit ''C'' ''Condensation'' 10 100 0 50, hit ''C'' ''Condensation'' 95 200 0 50,
            hit ''C'' ''Condensation'' 500 600 0 50]"

definition abc_joined :: state where
  "abc_joined =
     store [hit ''C'' ''Condensation'' 10 100 0 50, hit ''C'' ''Condensation'' 90 200 0 50,
            hit ''C'' ''Condensation'' 500 600 0 50]"

definition evalue_hits :: state where
  "evalue_hits =
     store [hit ''C'' ''Condensation'' 0 100 (1 / 100000) 50,
            hit ''C'' ''Condensation'' 0 100 (1 / 10000000000) 80,
            hit ''C'' ''Condensation'' 0 100 (1 / 1000) 80]"

definition mixed_types :: state where
  "mixed_types =
     store [hit ''A'' ''AMP-binding'' 0 400 0 50, hit ''C'' ''Condensation'' 530 980 0 50]"


definition four_hits_last_long :: state where
  "four_hits_last_long =
     store [hit ''C'' ''Condensation'' 0 400 0 50, hit ''C'' ''Condensation'' 530 980 0 50,
            hit ''C'' ''Condensation'' 2000 2400 0 50,
            hit ''C'' ''Condensation'' 2530 3600 0 50]"


definition two_queries :: state where
  "two_queries =
     store [hit ''C'' ''Condensation'' 0 400 0 50, hit ''C'' ''Condensation'' 530 980 0 50,
            hit ''C'' ''Condensation'' 2000 2400 0 50,
            hit ''C'' ''Condensation'' 2530 2980 0 50,
            hit ''C'' ''Condensation'' 5000 5400 0 50]"

section \<open>The scan of filter_domains\<close>

declare scan_loop.simps [simp del]

declare scan_loop_store.simps [simp del]

lemma slice_pair:
  assumes "1 \<le> i" "i < length ds"
  shows "drop (i - 1) (take (i + 1) ds) = [ds ! (i - 1), ds ! i]"
proof (rule nth_equalityI)
  show "length (drop (i - 1) (take (i + 1) ds)) = length [ds ! (i - 1), ds ! i]"
    using assms by simp
next
  fix k
  assume "k < length (drop (i - 1) (take (i + 1) ds))"
  then have "k < 2" using assms by simp
  then consider "k = 0" | "k = 1" by linarith
  then show "drop (i - 1) (take (i + 1) ds) ! k = [ds ! (i - 1), ds ! i] ! k"
    using assms by cases simp_all
qed

text \<open>
  As long as no pair before the last one merges, the loop only advances, and it leaves at
  \<open>i + 1 = total\<close>, before the pair \<open>(total - 2, total - 1)\<close> is sliced.
\<close>

lemma scan_loop_no_merge:
  assumes "1 \<le> i"
    and "\<forall>k. i \<le> k \<and> k + 1 < length ds \<longrightarrow>
           type (heap s (ds ! (k - 1))) \<noteq> type (heap s (ds ! k))
           \<or> is_fragmented_domain s (ds ! (k - 1)) (ds ! k) cp tp = Inr False"
  shows "scan_loop i (length ds) s ds cp tp = Inr (s, ds)"
  using assms
proof (induction "length ds - i" arbitrary: i)
  case 0
  then show ?case by (simp add: scan_loop.simps)
next
  case (Suc n)
  show ?case
  proof (cases "i + 1 = length ds")
    case True
    then show ?thesis by (simp add: scan_loop.simps)
  next
    case False
    with Suc.hyps have lt: "i + 1 < length ds" by simp
    have sl: "drop (i - 1) (take (i + 1) ds) = [ds ! (i - 1), ds ! i]"
      by (rule slice_pair) (use Suc.prems(1) lt in simp_all)
    have nm: "type (heap s (ds ! (i - 1))) \<noteq> type (heap s (ds ! i))
           \<or> is_fragmented_domain s (ds ! (i - 1)) (ds ! i) cp tp = Inr False"
      using Suc.prems(2) lt by simp
    have IH: "scan_loop (i + 1) (length ds) s ds cp tp = Inr (s, ds)"
    proof (rule Suc.hyps(1))
      show "n = length ds - (i + 1)" using Suc.hyps(2) by simp
      show "1 \<le> i + 1" by simp
      show "\<forall>k. i + 1 \<le> k \<and> k + 1 < length ds \<longrightarrow>
           type (heap s (ds ! (k - 1))) \<noteq> type (heap s (ds ! k))
           \<or> is_fragmented_domain s (ds ! (k - 1)) (ds ! k) cp tp = Inr False"
        using Suc.prems(2) by simp
    qed
    have "scan_loop i (length ds) s ds cp tp = scan_loop (i + 1) (length ds) s ds cp tp"
      using lt False sl nm by (subst scan_loop.simps) simp
    with IH show ?thesis by simp
  qed
qed

text \<open>
  C1. Two hits of the same type, PSSM length 1000, coverage 0.5, tolerance 0.1, lengths
  400 and 450, span 980: \<open>is_fragmented_domain\<close> returns True. The claim goes on to say
  that the scan of \<open>filter_domains\<close> merges the two hits into one; the code returns both
  hits, and the store, as they were, since the loop leaves at \<open>i + 1 = total\<close> before it
  slices the only pair.
\<close>

theorem filter_domains_two_fragments:
  "is_fragmented_domain two_fragments 0 1 (1 / 2) (1 / 10) = Inr True
   \<and> filter_domains two_fragments [0, 1] ''evalue'' (1 / 2) (1 / 10)
       = Inr (two_fragments, [0, 1])"
  by (simp add: filter_domains_def group_overlapping_hits_def two_fragments_def store_def
      hit_def registry_def choose_representative_domain_def key_functions_def
      sorted_by_key_def scan_loop.simps is_fragmented_domain_def len_def)

text \<open>
  Three hits of one type in which the first pair is fragmented, the second pair is
  fragmented, and the first hit, once extended over the second, is fragmented with the
  third (coverage 0.5, tolerance 0.6). The code merges twice and then raises
  \<open>ValueError\<close>: the list has one element left, \<open>total\<close> is still 3, and the slice
  cannot be unpacked into two names.
\<close>

lemma three_run_raises:
  "is_fragmented_domain three_run 0 1 (1 / 2) (6 / 10) = Inr True
   \<and> is_fragmented_domain three_run 1 2 (1 / 2) (6 / 10) = Inr True
   \<and> is_fragmented_domain (set_end three_run 0 495) 0 2 (1 / 2) (6 / 10) = Inr True
   \<and> filter_domains three_run [0, 1, 2] ''evalue'' (1 / 2) (6 / 10)
       = Inl (ValueError NotEnoughValues)"
  by (simp add: filter_domains_def group_overlapping_hits_def three_run_def store_def
      hit_def registry_def choose_representative_domain_def key_functions_def
      sorted_by_key_def scan_loop.simps is_fragmented_domain_def len_def set_end_def
      del_at_def)

text \<open>
  C10. As long as no earlier pair has merged, the scan does not test the last adjacent
  pair of the representatives: the representatives are returned unchanged whatever the
  last pair is. In particular two representatives are always returned unchanged, with the
  store unchanged, also when \<open>is_fragmented_domain\<close> would return True or raise on them.
\<close>

theorem filter_domains_last_pair_untested:
  assumes "representatives s (group_overlapping_hits s domains) by_metric = Inr ds"
  shows "(length ds = 2 \<longrightarrow> filter_domains s domains by_metric cp tp = Inr (s, ds))
       \<and> ((\<forall>k. 1 \<le> k \<and> k + 1 < length ds \<longrightarrow>
              type (heap s (ds ! (k - 1))) \<noteq> type (heap s (ds ! k))
              \<or> is_fragmented_domain s (ds ! (k - 1)) (ds ! k) cp tp = Inr False)
            \<longrightarrow> filter_domains s domains by_metric cp tp = Inr (s, ds))"
proof -
  have gen: "filter_domains s domains by_metric cp tp = Inr (s, ds)"
    if "\<forall>k. 1 \<le> k \<and> k + 1 < length ds \<longrightarrow>
              type (heap s (ds ! (k - 1))) \<noteq> type (heap s (ds ! k))
              \<or> is_fragmented_domain s (ds ! (k - 1)) (ds ! k) cp tp = Inr False"
    using scan_loop_no_merge [of 1 ds s cp tp] that assms
    by (simp add: filter_domains_def)
  have "filter_domains s domains by_metric cp tp = Inr (s, ds)" if "length ds = 2"
    by (rule gen) (use that in simp)
  with gen show ?thesis by blast
qed

theorem filter_domains_last_pair_untested_witness:
  "representatives two_fragments (group_overlapping_hits two_fragments [0, 1]) ''length''
     = Inr [0, 1]
   \<and> length [0::nat, 1] = 2
   \<and> is_fragmented_domain two_fragments 0 1 (1 / 2) (1 / 10) = Inr True
   \<and> filter_domains two_fragments [0, 1] ''length'' (1 / 2) (1 / 10)
       = Inr (two_fragments, [0, 1])"
proof -
  have r: "representatives two_fragments (group_overlapping_hits two_fragments [0, 1])
             ''length'' = Inr [0, 1]"
    by (simp add: group_overlapping_hits_def two_fragments_def store_def hit_def
        choose_representative_domain_def key_functions_def sorted_by_key_def)
  have f: "is_fragmented_domain two_fragments 0 1 (1 / 2) (1 / 10) = Inr True"
    by (simp add: two_fragments_def store_def hit_def registry_def
        is_fragmented_domain_def len_def)
  from filter_domains_last_pair_untested [OF r, of "1 / 2" "1 / 10"] r f
  show ?thesis by simp
qed

lemma slice_single:
  assumes "1 \<le> i" "i = length ds"
  shows "drop (i - 1) (take (i + 1) ds) = [ds ! (i - 1)]"
proof (rule nth_equalityI)
  show "length (drop (i - 1) (take (i + 1) ds)) = length [ds ! (i - 1)]"
    using assms by simp
next
  fix k
  assume "k < length (drop (i - 1) (take (i + 1) ds))"
  then have "k = 0" using assms by simp
  then show "drop (i - 1) (take (i + 1) ds) ! k = [ds ! (i - 1)] ! k"
    using assms by simp
qed

lemma is_fragmented_domain_resolved:
  assumes "type (heap s one) = type (heap s two)" "DOMAINS s (domain (heap s one)) \<noteq> None"
  shows "\<exists>b. is_fragmented_domain s one two cp tp = Inr b"
  using assms by (auto simp: is_fragmented_domain_def Let_def)

lemma set_end_fields [simp]:
  "DOMAINS (set_end s r e) = DOMAINS s"
  "domain (heap (set_end s r e) d) = domain (heap s d)"
  "type (heap (set_end s r e) d) = type (heap s d)"
  "start (heap (set_end s r e) d) = start (heap s d)"
  by (simp_all add: set_end_def)

lemma set_del_at: "set (del_at i xs) \<subseteq> set xs"
  unfolding del_at_def by (auto dest: in_set_takeD in_set_dropD)

lemma length_del_at: "i < length xs \<Longrightarrow> length (del_at i xs) = length xs - 1"
  by (simp add: del_at_def)

lemma scan_loop_after_two_deletions:
  assumes "1 \<le> i" "i \<le> length ds" "i < tot" "length ds + 2 \<le> tot"
    and "\<forall>d\<in>set ds. DOMAINS s (domain (heap s d)) \<noteq> None"
  shows "scan_loop i tot s ds cp tp = Inl (ValueError NotEnoughValues)"
  using assms
proof (induction "(tot - i) + length ds" arbitrary: i s ds rule: less_induct)
  case less
  have ne: "i + 1 \<noteq> tot" using less.prems by simp
  show ?case
  proof (cases "i = length ds")
    case True
    have "drop (i - 1) (take (i + 1) ds) = [ds ! (i - 1)]"
      by (rule slice_single) (use less.prems True in simp_all)
    then show ?thesis
      using less.prems(3) ne by (subst scan_loop.simps) simp
  next
    case False
    then have lt: "i < length ds" using less.prems by simp
    have sl: "drop (i - 1) (take (i + 1) ds) = [ds ! (i - 1), ds ! i]"
      by (rule slice_pair) (use less.prems lt in simp_all)
    have adv: "scan_loop (i + 1) tot s ds cp tp = Inl (ValueError NotEnoughValues)"
      by (rule less.hyps) (use less.prems lt in auto)
    show ?thesis
    proof (cases "type (heap s (ds ! (i - 1))) = type (heap s (ds ! i))")
      case diff: False
      have "scan_loop i tot s ds cp tp = scan_loop (i + 1) tot s ds cp tp"
        using less.prems(3) ne sl diff by (subst scan_loop.simps) simp
      with adv show ?thesis by simp
    next
      case same: True
      have "ds ! (i - 1) \<in> set ds" using lt by simp
      then have "DOMAINS s (domain (heap s (ds ! (i - 1)))) \<noteq> None"
        using less.prems(5) by blast
      then obtain b where b: "is_fragmented_domain s (ds ! (i - 1)) (ds ! i) cp tp = Inr b"
        using is_fragmented_domain_resolved [OF same] by blast
      show ?thesis
      proof (cases b)
        case False
        have "scan_loop i tot s ds cp tp = scan_loop (i + 1) tot s ds cp tp"
          using less.prems(3) ne sl same b False by (subst scan_loop.simps) simp
        with adv show ?thesis by simp
      next
        case True
        let ?s = "set_end s (ds ! (i - 1)) (end_pos (heap s (ds ! i)))"
        have mrg: "scan_loop i tot s ds cp tp = scan_loop i tot ?s (del_at i ds) cp tp"
          using less.prems(3) ne sl same b True by (subst scan_loop.simps) simp
        have "scan_loop i tot ?s (del_at i ds) cp tp = Inl (ValueError NotEnoughValues)"
        proof (rule less.hyps)
          show "tot - i + length (del_at i ds) < tot - i + length ds"
            using lt by (simp add: length_del_at)
          show "1 \<le> i" by (rule less.prems(1))
          show "i \<le> length (del_at i ds)" using lt by (simp add: length_del_at)
          show "i < tot" by (rule less.prems(3))
          show "length (del_at i ds) + 2 \<le> tot"
            using lt less.prems(4) by (simp add: length_del_at)
          show "\<forall>d\<in>set (del_at i ds). DOMAINS ?s (domain (heap ?s d)) \<noteq> None"
            using less.prems(5) set_del_at [of i ds] by auto
        qed
        with mrg show ?thesis by simp
      qed
    qed
  qed
qed


lemma scan_loop_returns_at_most_one_deleted:
  assumes "1 \<le> i" "i \<le> length ds" "scan_loop i tot s ds cp tp = Inr (s', out)"
  shows "tot \<le> length out + 1"
  using assms
proof (induction "(tot - i) + length ds" arbitrary: i s ds rule: less_induct)
  case less
  show ?case
  proof (cases "i < tot \<and> i + 1 \<noteq> tot")
    case False
    then have "scan_loop i tot s ds cp tp = Inr (s, ds)"
      by (subst scan_loop.simps) auto
    with less.prems False show ?thesis by auto
  next
    case True
    then have c: "i < tot" "i + 1 \<noteq> tot" by simp_all
    show ?thesis
    proof (cases "i = length ds")
      case True
      have "drop (i - 1) (take (i + 1) ds) = [ds ! (i - 1)]"
        by (rule slice_single) (use less.prems True in simp_all)
      then have "scan_loop i tot s ds cp tp = Inl (ValueError NotEnoughValues)"
        using c by (subst scan_loop.simps) simp
      with less.prems(3) show ?thesis by simp
    next
      case False
      then have lt: "i < length ds" using less.prems by simp
      have sl: "drop (i - 1) (take (i + 1) ds) = [ds ! (i - 1), ds ! i]"
        by (rule slice_pair) (use less.prems lt in simp_all)
      let ?s = "set_end s (ds ! (i - 1)) (end_pos (heap s (ds ! i)))"
      have step: "scan_loop (i + 1) tot s ds cp tp = Inr (s', out)
                  \<or> scan_loop i tot ?s (del_at i ds) cp tp = Inr (s', out)"
        using less.prems(3) c sl
        by (subst (asm) scan_loop.simps) (simp split: if_splits sum.splits bool.splits)
      then show ?thesis
      proof
        assume a: "scan_loop (i + 1) tot s ds cp tp = Inr (s', out)"
        show ?thesis
          by (rule less.hyps [OF _ _ _ a]) (use c lt in auto)
      next
        assume a: "scan_loop i tot ?s (del_at i ds) cp tp = Inr (s', out)"
        show ?thesis
          by (rule less.hyps [OF _ _ _ a]) (use less.prems(1) lt in \<open>auto simp: length_del_at\<close>)
      qed
    qed
  qed
qed

text \<open>
  C3. A scan that has deleted two or more elements (the list is at least two shorter than
  \<open>total\<close>) ends in the \<open>ValueError\<close> of the tuple unpacking, for hits whose domains are
  all in \<open>DOMAINS\<close>; so a call of \<open>filter_domains\<close> that returns has deleted at most one
  representative. Four hits in two fragmented pairs, with the default percentages, are an
  input on which \<open>filter_domains\<close> raises this error; so are three hits whose adjacent
  pairs are fragmented, when the percentages let the extended hit merge again.
\<close>

theorem filter_domains_unpack_error:
  "(representatives s (group_overlapping_hits s domains) by_metric = Inr reps
      \<and> filter_domains s domains by_metric cp tp = Inr (s', out)
      \<longrightarrow> length reps \<le> length out + 1)
   \<and> (1 \<le> i \<and> i \<le> length ds \<and> i < tot \<and> length ds + 2 \<le> tot
      \<and> (\<forall>d\<in>set ds. DOMAINS s (domain (heap s d)) \<noteq> None)
      \<longrightarrow> scan_loop i tot s ds cp tp = Inl (ValueError NotEnoughValues))
   \<and> filter_domains four_hits [0, 1, 2, 3] ''evalue'' (1 / 2) (1 / 10)
       = Inl (ValueError NotEnoughValues)
   \<and> filter_domains three_run [0, 1, 2] ''evalue'' (1 / 2) (6 / 10)
       = Inl (ValueError NotEnoughValues)"
proof (intro conjI impI)
  assume a: "representatives s (group_overlapping_hits s domains) by_metric = Inr reps
      \<and> filter_domains s domains by_metric cp tp = Inr (s', out)"
  then have sc: "scan_loop 1 (length reps) s reps cp tp = Inr (s', out)"
    by (auto simp: filter_domains_def)
  show "length reps \<le> length out + 1"
  proof (cases "reps = []")
    case True
    then show ?thesis by simp
  next
    case False
    then have "1 \<le> length reps" by (cases reps) simp_all
    from scan_loop_returns_at_most_one_deleted [OF _ this sc] show ?thesis by simp
  qed
next
  assume "1 \<le> i \<and> i \<le> length ds \<and> i < tot \<and> length ds + 2 \<le> tot
      \<and> (\<forall>d\<in>set ds. DOMAINS s (domain (heap s d)) \<noteq> None)"
  then show "scan_loop i tot s ds cp tp = Inl (ValueError NotEnoughValues)"
    using scan_loop_after_two_deletions by blast
next
  show "filter_domains four_hits [0, 1, 2, 3] ''evalue'' (1 / 2) (1 / 10)
       = Inl (ValueError NotEnoughValues)"
    by (simp add: filter_domains_def group_overlapping_hits_def four_hits_def store_def
      hit_def registry_def choose_representative_domain_def key_functions_def
      sorted_by_key_def scan_loop.simps is_fragmented_domain_def len_def set_end_def
      del_at_def)
next
  show "filter_domains three_run [0, 1, 2] ''evalue'' (1 / 2) (6 / 10)
       = Inl (ValueError NotEnoughValues)"
    using three_run_raises by blast
qed

theorem filter_domains_unpack_error_witness:
  "representatives four_hits (group_overlapping_hits four_hits [0, 1, 2]) ''evalue''
     = Inr [0, 1, 2]
   \<and> filter_domains four_hits [0, 1, 2] ''evalue'' (1 / 2) (1 / 10)
       = Inr (set_end four_hits 0 980, [0, 2])
   \<and> length [0::nat, 1, 2] \<le> length [0::nat, 2] + 1
   \<and> scan_loop 2 4 (set_end (set_end four_hits 0 980) 2 2980) [0, 2] (1 / 2) (1 / 10)
       = Inl (ValueError NotEnoughValues)"
proof -
  have r: "representatives four_hits (group_overlapping_hits four_hits [0, 1, 2]) ''evalue''
     = Inr [0, 1, 2]"
    by (simp add: group_overlapping_hits_def four_hits_def store_def hit_def
        choose_representative_domain_def key_functions_def sorted_by_key_def)
  have f: "filter_domains four_hits [0, 1, 2] ''evalue'' (1 / 2) (1 / 10)
       = Inr (set_end four_hits 0 980, [0, 2])"
    by (simp add: filter_domains_def group_overlapping_hits_def four_hits_def store_def
      hit_def registry_def choose_representative_domain_def key_functions_def
      sorted_by_key_def scan_loop.simps is_fragmented_domain_def len_def set_end_def
      del_at_def)
  have k: "\<forall>d\<in>set [0, 2]. DOMAINS (set_end (set_end four_hits 0 980) 2 2980)
             (domain (heap (set_end (set_end four_hits 0 980) 2 2980) d)) \<noteq> None"
    by (simp add: four_hits_def store_def hit_def registry_def)
  from filter_domains_unpack_error
    [of four_hits "[0, 1, 2]" "''evalue''" "[0, 1, 2]" "1 / 2" "1 / 10"
        "set_end four_hits 0 980" "[0, 2]" 2 "[0, 2]" 4]
  have "length [0::nat, 1, 2] \<le> length [0::nat, 2] + 1"
    using r f by simp
  moreover from filter_domains_unpack_error
    [of "set_end (set_end four_hits 0 980) 2 2980" _ _ _ "1 / 2" "1 / 10" _ _ 2 "[0, 2]" 4] k
  have "scan_loop 2 4 (set_end (set_end four_hits 0 980) 2 2980) [0, 2] (1 / 2) (1 / 10)
       = Inl (ValueError NotEnoughValues)"
    by simp
  ultimately show ?thesis using r f by simp
qed

section \<open>Grouping\<close>

lemma group_loop_concat: "concat (group_loop s g b ds) = g @ ds"
  by (induction ds arbitrary: g b) auto

lemma group_loop_not_Nil: "group_loop s g b ds \<noteq> []"
  by (induction ds arbitrary: g b) auto

lemma group_loop_groups_nonempty: "g \<noteq> [] \<Longrightarrow> [] \<notin> set (group_loop s g b ds)"
  by (induction ds arbitrary: g b) auto

lemma group_loop_first: "g \<noteq> [] \<Longrightarrow> hd (hd (group_loop s g b ds)) = hd g"
  by (induction ds arbitrary: g b) auto

lemma sorted_group_heads:
  "sorted (map f (concat gs)) \<Longrightarrow> [] \<notin> set gs \<Longrightarrow> sorted (map (\<lambda>g. f (hd g)) gs)"
proof (induction gs)
  case Nil
  then show ?case by simp
next
  case (Cons g gs)
  then have g: "g \<noteq> []" and gs: "[] \<notin> set gs" by auto
  have s: "sorted (map f g @ map f (concat gs))" using Cons.prems(1) by simp
  have "sorted (map f (concat gs))" using s sorted_append by blast
  then have tl: "sorted (map (\<lambda>g. f (hd g)) gs)" using Cons.IH gs by simp
  have "f (hd g) \<le> f (hd g')" if "g' \<in> set gs" for g'
  proof -
    have "g' \<noteq> []" using that gs by auto
    then have "hd g' \<in> set g'" by simp
    then have "hd g' \<in> set (concat gs)" using that by auto
    moreover have "hd g \<in> set g" using g by simp
    ultimately show ?thesis using s by (auto simp: sorted_append)
  qed
  with tl show ?case by auto
qed


lemma Max_end_snoc:
  "g \<noteq> [] \<Longrightarrow> Max (f ` set (g @ [d])) = max (Max (f ` set g)) (f d)"
  by (simp add: Max_insert max.commute)

lemma group_loop_joined:
  assumes "g \<noteq> []" "b = Max ((\<lambda>d. end_pos (heap s d)) ` set g)"
    and "\<forall>k. 0 < k \<and> k < length g \<longrightarrow>
           start (heap s (g ! k)) + 10 \<le> Max ((\<lambda>d. end_pos (heap s d)) ` set (take k g))"
  shows "\<forall>g'\<in>set (group_loop s g b ds). \<forall>k. 0 < k \<and> k < length g' \<longrightarrow>
           start (heap s (g' ! k)) + 10 \<le> Max ((\<lambda>d. end_pos (heap s d)) ` set (take k g'))"
  using assms
proof (induction ds arbitrary: g b)
  case Nil
  then show ?case by simp
next
  case (Cons d ds)
  show ?case
  proof (cases "start (heap s d) + 10 \<le> b")
    case True
    have "\<forall>g'\<in>set (group_loop s (g @ [d]) (max b (end_pos (heap s d))) ds).
            \<forall>k. 0 < k \<and> k < length g' \<longrightarrow>
              start (heap s (g' ! k)) + 10 \<le> Max ((\<lambda>d. end_pos (heap s d)) ` set (take k g'))"
    proof (rule Cons.IH)
      show "g @ [d] \<noteq> []" by simp
      show "max b (end_pos (heap s d)) = Max ((\<lambda>d. end_pos (heap s d)) ` set (g @ [d]))"
        using Cons.prems(1,2) Max_end_snoc [of g "\<lambda>d. end_pos (heap s d)" d] by simp
      show "\<forall>k. 0 < k \<and> k < length (g @ [d]) \<longrightarrow>
              start (heap s ((g @ [d]) ! k)) + 10
                \<le> Max ((\<lambda>d. end_pos (heap s d)) ` set (take k (g @ [d])))"
      proof (intro allI impI)
        fix k assume k: "0 < k \<and> k < length (g @ [d])"
        show "start (heap s ((g @ [d]) ! k)) + 10
                \<le> Max ((\<lambda>d. end_pos (heap s d)) ` set (take k (g @ [d])))"
        proof (cases "k < length g")
          case True
          then show ?thesis using Cons.prems(3) k by (simp add: nth_append)
        next
          case False
          then have "k = length g" using k by simp
          then show ?thesis using True Cons.prems(2) by simp
        qed
      qed
    qed
    with True show ?thesis by simp
  next
    case False
    have "\<forall>g'\<in>set (group_loop s [d] (end_pos (heap s d)) ds).
            \<forall>k. 0 < k \<and> k < length g' \<longrightarrow>
              start (heap s (g' ! k)) + 10 \<le> Max ((\<lambda>d. end_pos (heap s d)) ` set (take k g'))"
      by (rule Cons.IH) simp_all
    with False Cons.prems(3) show ?thesis by simp
  qed
qed

lemma group_loop_separated:
  assumes "g \<noteq> []" "b = Max ((\<lambda>d. end_pos (heap s d)) ` set g)"
  shows "successively
           (\<lambda>g g'. \<not> start (heap s (hd g')) + 10 \<le> Max ((\<lambda>d. end_pos (heap s d)) ` set g))
           (group_loop s g b ds)"
  using assms
proof (induction ds arbitrary: g b)
  case Nil
  then show ?case by simp
next
  case (Cons d ds)
  show ?case
  proof (cases "start (heap s d) + 10 \<le> b")
    case True
    have "successively
           (\<lambda>g g'. \<not> start (heap s (hd g')) + 10 \<le> Max ((\<lambda>d. end_pos (heap s d)) ` set g))
           (group_loop s (g @ [d]) (max b (end_pos (heap s d))) ds)"
    proof (rule Cons.IH)
      show "g @ [d] \<noteq> []" by simp
      show "max b (end_pos (heap s d)) = Max ((\<lambda>d. end_pos (heap s d)) ` set (g @ [d]))"
        using Cons.prems(1,2) Max_end_snoc [of g "\<lambda>d. end_pos (heap s d)" d] by simp
    qed
    with True show ?thesis by simp
  next
    case False
    have rest: "successively
           (\<lambda>g g'. \<not> start (heap s (hd g')) + 10 \<le> Max ((\<lambda>d. end_pos (heap s d)) ` set g))
           (group_loop s [d] (end_pos (heap s d)) ds)"
      by (rule Cons.IH) simp_all
    have "hd (hd (group_loop s [d] (end_pos (heap s d)) ds)) = d"
      using group_loop_first [of "[d]" s "end_pos (heap s d)" ds] by simp
    with False rest Cons.prems(2) show ?thesis
      by (simp add: successively_Cons)
  qed
qed


text \<open>
  C4. The groups yielded by \<open>group_overlapping_hits\<close>, one after the other, are the input
  sorted by start: a partition of the input in which every hit occurs in exactly one
  group (counted with multiplicity). No group is empty, the empty input yields no group,
  and the starts of the first members of the groups ascend.
\<close>

theorem group_overlapping_hits_partition:
  "concat (group_overlapping_hits s domains) = sort_key (\<lambda>d. start (heap s d)) domains
   \<and> mset (concat (group_overlapping_hits s domains)) = mset domains
   \<and> [] \<notin> set (group_overlapping_hits s domains)
   \<and> group_overlapping_hits s [] = []
   \<and> sorted (map (\<lambda>g. start (heap s (hd g))) (group_overlapping_hits s domains))"
proof -
  let ?k = "\<lambda>d. start (heap s d)"
  have c: "concat (group_overlapping_hits s domains) = sort_key ?k domains"
    by (simp add: group_overlapping_hits_def group_loop_concat split: list.splits)
  have m: "mset (concat (group_overlapping_hits s domains)) = mset domains"
    by (simp add: c)
  have n: "[] \<notin> set (group_overlapping_hits s domains)"
    by (simp add: group_overlapping_hits_def group_loop_groups_nonempty split: list.splits)
  have e: "group_overlapping_hits s [] = []"
    by (simp add: group_overlapping_hits_def)
  have "sorted (map ?k (concat (group_overlapping_hits s domains)))"
    by (simp add: c)
  then have "sorted (map (\<lambda>g. ?k (hd g)) (group_overlapping_hits s domains))"
    using n by (rule sorted_group_heads)
  with c m n e show ?thesis by simp
qed

text \<open>
  C5. With the input sorted by start, a hit is in the same group as its predecessor
  exactly when its start plus 10 is at most the border, the largest end among the hits
  already in the group: every later member of a group passed this test against the
  members before it, and the first member of every further group failed it against the
  whole group before. The hits A (10 to 100), B (95 to 200) and C (500 to 600) are
  yielded as three groups of one hit, since 95 + 10 is more than 100.
\<close>

theorem group_overlapping_hits_border:
  "(\<forall>g\<in>set (group_overlapping_hits s domains). \<forall>k. 0 < k \<and> k < length g \<longrightarrow>
       start (heap s (g ! k)) + 10 \<le> Max ((\<lambda>d. end_pos (heap s d)) ` set (take k g)))
   \<and> (\<forall>n. Suc n < length (group_overlapping_hits s domains) \<longrightarrow>
       \<not> start (heap s (hd (group_overlapping_hits s domains ! Suc n))) + 10
          \<le> Max ((\<lambda>d. end_pos (heap s d)) ` set (group_overlapping_hits s domains ! n)))
   \<and> group_overlapping_hits abc_hits [0, 1, 2] = [[0], [1], [2]]"
proof (intro conjI)
  show "\<forall>g\<in>set (group_overlapping_hits s domains). \<forall>k. 0 < k \<and> k < length g \<longrightarrow>
       start (heap s (g ! k)) + 10 \<le> Max ((\<lambda>d. end_pos (heap s d)) ` set (take k g))"
  proof (cases "sort_key (\<lambda>d. start (heap s d)) domains")
    case Nil
    then show ?thesis by (simp add: group_overlapping_hits_def)
  next
    case (Cons first rest)
    have "\<forall>g\<in>set (group_loop s [first] (end_pos (heap s first)) rest).
            \<forall>k. 0 < k \<and> k < length g \<longrightarrow>
              start (heap s (g ! k)) + 10 \<le> Max ((\<lambda>d. end_pos (heap s d)) ` set (take k g))"
      by (rule group_loop_joined) simp_all
    with Cons show ?thesis by (simp add: group_overlapping_hits_def)
  qed
next
  have "successively
          (\<lambda>g g'. \<not> start (heap s (hd g')) + 10 \<le> Max ((\<lambda>d. end_pos (heap s d)) ` set g))
          (group_overlapping_hits s domains)"
  proof (cases "sort_key (\<lambda>d. start (heap s d)) domains")
    case Nil
    then show ?thesis by (simp add: group_overlapping_hits_def)
  next
    case (Cons first rest)
    have "successively
          (\<lambda>g g'. \<not> start (heap s (hd g')) + 10 \<le> Max ((\<lambda>d. end_pos (heap s d)) ` set g))
          (group_loop s [first] (end_pos (heap s first)) rest)"
      by (rule group_loop_separated) simp_all
    with Cons show ?thesis by (simp add: group_overlapping_hits_def)
  qed
  then show "\<forall>n. Suc n < length (group_overlapping_hits s domains) \<longrightarrow>
       \<not> start (heap s (hd (group_overlapping_hits s domains ! Suc n))) + 10
          \<le> Max ((\<lambda>d. end_pos (heap s d)) ` set (group_overlapping_hits s domains ! n))"
    by (simp add: successively_conv_nth)
next
  show "group_overlapping_hits abc_hits [0, 1, 2] = [[0], [1], [2]]"
    by (simp add: group_overlapping_hits_def abc_hits_def store_def hit_def)
qed

theorem group_overlapping_hits_border_witness:
  "group_overlapping_hits abc_joined [2, 1, 0] = [[0, 1], [2]]
   \<and> start (heap abc_joined 1) + 10 \<le> Max ((\<lambda>d. end_pos (heap abc_joined d)) ` set [0])
   \<and> \<not> start (heap abc_joined 2) + 10
        \<le> Max ((\<lambda>d. end_pos (heap abc_joined d)) ` set [0, 1])"
proof -
  have g: "group_overlapping_hits abc_joined [2, 1, 0] = [[0, 1], [2]]"
    by (simp add: group_overlapping_hits_def abc_joined_def store_def hit_def)
  from group_overlapping_hits_border [of abc_joined "[2, 1, 0]"]
  have a: "\<forall>g\<in>set [[0, 1], [2::nat]]. \<forall>k. 0 < k \<and> k < length g \<longrightarrow>
       start (heap abc_joined (g ! k)) + 10
         \<le> Max ((\<lambda>d. end_pos (heap abc_joined d)) ` set (take k g))"
    and b: "\<forall>n. Suc n < length [[0, 1], [2::nat]] \<longrightarrow>
       \<not> start (heap abc_joined (hd ([[0, 1], [2::nat]] ! Suc n))) + 10
          \<le> Max ((\<lambda>d. end_pos (heap abc_joined d)) ` set ([[0, 1], [2::nat]] ! n))"
    unfolding g by blast+
  have a': "start (heap abc_joined 1) + 10
         \<le> Max ((\<lambda>d. end_pos (heap abc_joined d)) ` set [0])"
    using a [rule_format, of "[0, 1]" 1] by simp
  have b': "\<not> start (heap abc_joined 2) + 10
        \<le> Max ((\<lambda>d. end_pos (heap abc_joined d)) ` set [0, 1])"
    using b [rule_format, of 0] by simp
  from g a' b' show ?thesis by simp
qed

section \<open>Choosing the representative\<close>

lemma key_values_total:
  "\<forall>d\<in>set xs. key d = Inr (k d) \<Longrightarrow> key_values key xs = Inr (map (\<lambda>d. (k d, d)) xs)"
  by (induction xs) simp_all

lemma insort_key_decorated:
  "insort_key fst (k x, x) (map (\<lambda>d. (k d, d)) ys) = map (\<lambda>d. (k d, d)) (insort_key k x ys)"
  by (induction ys) simp_all

lemma sort_key_decorated:
  "sort_key fst (map (\<lambda>d. (k d, d)) xs) = map (\<lambda>d. (k d, d)) (sort_key k xs)"
  by (induction xs) (simp_all add: insort_key_decorated)

lemma sorted_by_key_total:
  assumes "\<forall>d\<in>set xs. key d = Inr (k d)"
  shows "sorted_by_key key reverse xs
           = Inr (if reverse then rev (sort_key k (rev xs)) else sort_key k xs)"
proof -
  have "rev (map (\<lambda>d. (k d, d)) xs) = map (\<lambda>d. (k d, d)) (rev xs)"
    by (simp add: rev_map)
  then show ?thesis
    using key_values_total [OF assms]
    by (simp add: sorted_by_key_def sort_key_decorated rev_map comp_def)
qed

lemma hd_insort_key:
  "ys \<noteq> [] \<Longrightarrow> hd (insort_key k x ys) = (if k x \<le> k (hd ys) then x else hd ys)"
  by (cases ys) simp_all

lemma last_insort_key:
  "last (insort_key k x ys) = (if \<forall>y\<in>set ys. k y < k x then x else last ys)"
  by (induction ys) (auto simp: not_le)

lemma sort_key_not_Nil: "xs \<noteq> [] \<Longrightarrow> sort_key k xs \<noteq> []"
  by (cases xs) (simp_all add: insort_is_Cons)

lemma hd_sort_key_first_min:
  "xs \<noteq> [] \<Longrightarrow> \<exists>ys zs. xs = ys @ hd (sort_key k xs) # zs
        \<and> (\<forall>y\<in>set ys. k (hd (sort_key k xs)) < k y)
        \<and> (\<forall>z\<in>set zs. k (hd (sort_key k xs)) \<le> k z)"
proof (induction xs)
  case Nil
  then show ?case by simp
next
  case (Cons x xs)
  show ?case
  proof (cases "xs = []")
    case True
    then have "x # xs = [] @ hd (sort_key k (x # xs)) # []
        \<and> (\<forall>y\<in>set []. k (hd (sort_key k (x # xs))) < k y)
        \<and> (\<forall>z\<in>set []. k (hd (sort_key k (x # xs))) \<le> k z)"
      by simp
    then show ?thesis by blast
  next
    case False
    let ?h = "hd (sort_key k xs)"
    from Cons.IH [OF False] obtain ys zs where d: "xs = ys @ ?h # zs"
      and lt: "\<forall>y\<in>set ys. k ?h < k y" and le: "\<forall>z\<in>set zs. k ?h \<le> k z"
      by blast
    have all: "\<forall>z\<in>set xs. k ?h \<le> k z"
    proof
      fix z assume "z \<in> set xs"
      then have "z \<in> set ys \<or> z = ?h \<or> z \<in> set zs" by (subst (asm) d) auto
      then show "k ?h \<le> k z" using lt le by auto
    qed
    have hd: "hd (sort_key k (x # xs)) = (if k x \<le> k ?h then x else ?h)"
      using sort_key_not_Nil [OF False, of k] by (simp add: hd_insort_key)
    show ?thesis
    proof (cases "k x \<le> k ?h")
      case True
      then have "x # xs = [] @ hd (sort_key k (x # xs)) # xs
          \<and> (\<forall>y\<in>set []. k (hd (sort_key k (x # xs))) < k y)
          \<and> (\<forall>z\<in>set xs. k (hd (sort_key k (x # xs))) \<le> k z)"
        using hd all by auto
      then show ?thesis by blast
    next
      case False
      then have "x # xs = (x # ys) @ hd (sort_key k (x # xs)) # zs
          \<and> (\<forall>y\<in>set (x # ys). k (hd (sort_key k (x # xs))) < k y)
          \<and> (\<forall>z\<in>set zs. k (hd (sort_key k (x # xs))) \<le> k z)"
        using hd d lt le by auto
      then show ?thesis by blast
    qed
  qed
qed

lemma last_sort_key_last_max:
  "xs \<noteq> [] \<Longrightarrow> \<exists>ys zs. xs = ys @ last (sort_key k xs) # zs
        \<and> (\<forall>y\<in>set ys. k y \<le> k (last (sort_key k xs)))
        \<and> (\<forall>z\<in>set zs. k z < k (last (sort_key k xs)))"
proof (induction xs)
  case Nil
  then show ?case by simp
next
  case (Cons x xs)
  show ?case
  proof (cases "xs = []")
    case True
    then have "x # xs = [] @ last (sort_key k (x # xs)) # []
        \<and> (\<forall>y\<in>set []. k y \<le> k (last (sort_key k (x # xs))))
        \<and> (\<forall>z\<in>set []. k z < k (last (sort_key k (x # xs))))"
      by simp
    then show ?thesis by blast
  next
    case False
    let ?h = "last (sort_key k xs)"
    from Cons.IH [OF False] obtain ys zs where d: "xs = ys @ ?h # zs"
      and le: "\<forall>y\<in>set ys. k y \<le> k ?h" and lt: "\<forall>z\<in>set zs. k z < k ?h"
      by blast
    have all: "\<forall>z\<in>set xs. k z \<le> k ?h"
    proof
      fix z assume "z \<in> set xs"
      then have "z \<in> set ys \<or> z = ?h \<or> z \<in> set zs" by (subst (asm) d) auto
      then show "k z \<le> k ?h" using lt le by auto
    qed
    have "?h \<in> set xs" by (subst (2) d) simp
    have lst: "last (sort_key k (x # xs)) = (if \<forall>y\<in>set xs. k y < k x then x else ?h)"
      by (simp add: last_insort_key)
    show ?thesis
    proof (cases "\<forall>y\<in>set xs. k y < k x")
      case True
      then have "x # xs = [] @ last (sort_key k (x # xs)) # xs
          \<and> (\<forall>y\<in>set []. k y \<le> k (last (sort_key k (x # xs))))
          \<and> (\<forall>z\<in>set xs. k z < k (last (sort_key k (x # xs))))"
        using lst by auto
      then show ?thesis by blast
    next
      case False
      then obtain y where "y \<in> set xs" "k x \<le> k y" by (auto simp: not_less)
      then have "k x \<le> k ?h" using all by fastforce
      then have "x # xs = (x # ys) @ last (sort_key k (x # xs)) # zs
          \<and> (\<forall>y\<in>set (x # ys). k y \<le> k (last (sort_key k (x # xs))))
          \<and> (\<forall>z\<in>set zs. k z < k (last (sort_key k (x # xs))))"
        using lst False d lt le by auto
      then show ?thesis by blast
    qed
  qed
qed


lemma choose_ascending:
  assumes "grp \<noteq> []" "key_functions s m = Some (key, False)"
    and "\<forall>d\<in>set grp. key d = Inr (k d)"
  shows "\<exists>before best after. grp = before @ best # after
           \<and> choose_representative_domain s grp m = Inr best
           \<and> (\<forall>d\<in>set before. k best < k d)
           \<and> (\<forall>d\<in>set after. k best \<le> k d)"
proof -
  let ?sorted = "sort_key k grp"
  have ne: "?sorted \<noteq> []" using assms(1) by (rule sort_key_not_Nil)
  have "sorted_by_key key False grp = Inr ?sorted"
    using sorted_by_key_total [OF assms(3), of False] by simp
  then have c: "choose_representative_domain s grp m = Inr (hd ?sorted)"
    using assms(2) ne by (simp add: choose_representative_domain_def split: list.splits)
  from hd_sort_key_first_min [OF assms(1), of k] c show ?thesis by metis
qed

lemma choose_descending:
  assumes "grp \<noteq> []" "key_functions s m = Some (key, True)"
    and "\<forall>d\<in>set grp. key d = Inr (k d)"
  shows "\<exists>before best after. grp = before @ best # after
           \<and> choose_representative_domain s grp m = Inr best
           \<and> (\<forall>d\<in>set before. k d < k best)
           \<and> (\<forall>d\<in>set after. k d \<le> k best)"
proof -
  let ?sorted = "sort_key k (rev grp)"
  have r: "rev grp \<noteq> []" using assms(1) by simp
  have ne: "?sorted \<noteq> []" using r by (rule sort_key_not_Nil)
  have "sorted_by_key key True grp = Inr (rev ?sorted)"
    using sorted_by_key_total [OF assms(3), of True] by simp
  moreover have "hd (rev ?sorted) = last ?sorted" using ne by (simp add: hd_rev)
  moreover have "rev ?sorted \<noteq> []" using ne by simp
  ultimately have c: "choose_representative_domain s grp m = Inr (last ?sorted)"
    using assms(2) by (simp add: choose_representative_domain_def split: list.splits)
  from last_sort_key_last_max [OF r, of k] obtain ys zs
    where d: "rev grp = ys @ last ?sorted # zs"
      and le: "\<forall>y\<in>set ys. k y \<le> k (last ?sorted)"
      and lt: "\<forall>z\<in>set zs. k z < k (last ?sorted)"
    by blast
  from d have "rev (rev grp) = rev (ys @ last ?sorted # zs)" by simp
  then have "grp = rev zs @ last ?sorted # rev ys" by simp
  moreover have "\<forall>d\<in>set (rev zs). k d < k (last ?sorted)" using lt by simp
  moreover have "\<forall>d\<in>set (rev ys). k d \<le> k (last ?sorted)" using le by simp
  ultimately show ?thesis using c by blast
qed

lemma three_split:
  "[a, b, c] = ys @ x # zs \<Longrightarrow>
     (ys = [] \<and> x = a \<and> zs = [b, c]) \<or> (ys = [a] \<and> x = b \<and> zs = [c])
     \<or> (ys = [a, b] \<and> x = c \<and> zs = [])"
  by (auto simp: Cons_eq_append_conv)

text \<open>
  C6. For a group that is not empty \<open>choose_representative_domain\<close> returns a member
  \<open>best\<close> of the group such that: under \<open>evalue\<close> no member has a smaller e-value; under
  \<open>length\<close> no member has a larger \<open>end - start\<close>; under \<open>bitscore\<close>, when every member's
  domain is in \<open>DOMAINS\<close> with a threshold that is not zero, no member has a larger bit
  score divided by its threshold. In each case the members before \<open>best\<close> in the group's
  order are strictly worse: of the members tied on the metric the earliest is returned,
  under the ascending and under the reversed sorts alike.
\<close>

theorem choose_representative_domain_best:
  assumes "grp \<noteq> []"
  shows "(\<exists>before best after. grp = before @ best # after
            \<and> choose_representative_domain s grp ''evalue'' = Inr best
            \<and> (\<forall>d\<in>set before. evalue (heap s best) < evalue (heap s d))
            \<and> (\<forall>d\<in>set after. evalue (heap s best) \<le> evalue (heap s d)))
       \<and> (\<exists>before best after. grp = before @ best # after
            \<and> choose_representative_domain s grp ''length'' = Inr best
            \<and> (\<forall>d\<in>set before. end_pos (heap s d) - start (heap s d)
                                 < end_pos (heap s best) - start (heap s best))
            \<and> (\<forall>d\<in>set after. end_pos (heap s d) - start (heap s d)
                                \<le> end_pos (heap s best) - start (heap s best)))
       \<and> ((\<forall>d\<in>set grp. \<exists>e. DOMAINS s (domain (heap s d)) = Some e \<and> ebitscore e \<noteq> 0) \<longrightarrow>
           (\<exists>before best after. grp = before @ best # after
            \<and> choose_representative_domain s grp ''bitscore'' = Inr best
            \<and> (\<forall>d\<in>set before.
                  bitscore (heap s d) / ebitscore (the (DOMAINS s (domain (heap s d))))
                  < bitscore (heap s best) / ebitscore (the (DOMAINS s (domain (heap s best)))))
            \<and> (\<forall>d\<in>set after.
                  bitscore (heap s d) / ebitscore (the (DOMAINS s (domain (heap s d))))
                  \<le> bitscore (heap s best)
                      / ebitscore (the (DOMAINS s (domain (heap s best)))))))"
proof (intro conjI impI)
  show "\<exists>before best after. grp = before @ best # after
            \<and> choose_representative_domain s grp ''evalue'' = Inr best
            \<and> (\<forall>d\<in>set before. evalue (heap s best) < evalue (heap s d))
            \<and> (\<forall>d\<in>set after. evalue (heap s best) \<le> evalue (heap s d))"
    by (rule choose_ascending [OF assms, where key = "\<lambda>d. Inr (evalue (heap s d))"])
       (simp_all add: key_functions_def)
next
  have "\<exists>before best after. grp = before @ best # after
            \<and> choose_representative_domain s grp ''length'' = Inr best
            \<and> (\<forall>d\<in>set before. (of_int (end_pos (heap s d) - start (heap s d)) :: rat)
                                 < of_int (end_pos (heap s best) - start (heap s best)))
            \<and> (\<forall>d\<in>set after. (of_int (end_pos (heap s d) - start (heap s d)) :: rat)
                                \<le> of_int (end_pos (heap s best) - start (heap s best)))"
    by (rule choose_descending [OF assms,
          where key = "\<lambda>d. Inr (of_int (end_pos (heap s d) - start (heap s d)))"])
       (simp_all add: key_functions_def)
  then show "\<exists>before best after. grp = before @ best # after
            \<and> choose_representative_domain s grp ''length'' = Inr best
            \<and> (\<forall>d\<in>set before. end_pos (heap s d) - start (heap s d)
                                 < end_pos (heap s best) - start (heap s best))
            \<and> (\<forall>d\<in>set after. end_pos (heap s d) - start (heap s d)
                                \<le> end_pos (heap s best) - start (heap s best))"
    by (simp only: of_int_less_iff of_int_le_iff)
next
  assume res: "\<forall>d\<in>set grp. \<exists>e. DOMAINS s (domain (heap s d)) = Some e \<and> ebitscore e \<noteq> 0"
  let ?key = "\<lambda>d. case DOMAINS s (domain (heap s d)) of
                     None \<Rightarrow> Inl (KeyError (domain (heap s d)))
                   | Some e \<Rightarrow> if ebitscore e = 0 then Inl ZeroDivisionError
                              else Inr (bitscore (heap s d) / ebitscore e)"
  have k: "\<forall>d\<in>set grp. ?key d
             = Inr (bitscore (heap s d) / ebitscore (the (DOMAINS s (domain (heap s d)))))"
    using res by fastforce
  show "\<exists>before best after. grp = before @ best # after
            \<and> choose_representative_domain s grp ''bitscore'' = Inr best
            \<and> (\<forall>d\<in>set before.
                  bitscore (heap s d) / ebitscore (the (DOMAINS s (domain (heap s d))))
                  < bitscore (heap s best) / ebitscore (the (DOMAINS s (domain (heap s best)))))
            \<and> (\<forall>d\<in>set after.
                  bitscore (heap s d) / ebitscore (the (DOMAINS s (domain (heap s d))))
                  \<le> bitscore (heap s best)
                      / ebitscore (the (DOMAINS s (domain (heap s best)))))"
    by (rule choose_descending [OF assms _ k]) (simp add: key_functions_def)
qed


theorem choose_representative_domain_best_witness:
  "[0::nat, 1, 2] \<noteq> []
   \<and> choose_representative_domain evalue_hits [0, 1, 2] ''evalue'' = Inr 1
   \<and> evalue (heap evalue_hits 1) = 1 / 10000000000
   \<and> choose_representative_domain evalue_hits [0, 1, 2] ''length'' = Inr 0
   \<and> choose_representative_domain evalue_hits [0, 1, 2] ''bitscore'' = Inr 1"
proof -
  have ne: "[0::nat, 1, 2] \<noteq> []" by simp
  have res: "\<forall>d\<in>set [0, 1, 2]. \<exists>e.
      DOMAINS evalue_hits (domain (heap evalue_hits d)) = Some e \<and> ebitscore e \<noteq> 0"
    by (simp add: evalue_hits_def store_def hit_def registry_def)
  note best = choose_representative_domain_best [OF ne, of evalue_hits]
  from best [THEN conjunct1] obtain before b after
    where d: "[0, 1, 2] = before @ b # after"
      and c: "choose_representative_domain evalue_hits [0, 1, 2] ''evalue'' = Inr b"
      and lt: "\<forall>d\<in>set before. evalue (heap evalue_hits b) < evalue (heap evalue_hits d)"
      and le: "\<forall>d\<in>set after. evalue (heap evalue_hits b) \<le> evalue (heap evalue_hits d)"
    by blast
  from three_split [OF d] lt le have "b = 1"
    by (auto simp: evalue_hits_def store_def hit_def)
  with c have v1: "choose_representative_domain evalue_hits [0, 1, 2] ''evalue'' = Inr 1"
    by simp
  from best [THEN conjunct2, THEN conjunct1] obtain before b after
    where d: "[0, 1, 2] = before @ b # after"
      and c: "choose_representative_domain evalue_hits [0, 1, 2] ''length'' = Inr b"
      and lt: "\<forall>d\<in>set before. end_pos (heap evalue_hits d) - start (heap evalue_hits d)
                 < end_pos (heap evalue_hits b) - start (heap evalue_hits b)"
    by blast
  from three_split [OF d] lt have "b = 0"
    by (auto simp: evalue_hits_def store_def hit_def)
  with c have v2: "choose_representative_domain evalue_hits [0, 1, 2] ''length'' = Inr 0"
    by simp
  from best [THEN conjunct2, THEN conjunct2, THEN mp, OF res] obtain before b after
    where d: "[0, 1, 2] = before @ b # after"
      and c: "choose_representative_domain evalue_hits [0, 1, 2] ''bitscore'' = Inr b"
      and lt: "\<forall>d\<in>set before.
              bitscore (heap evalue_hits d)
                / ebitscore (the (DOMAINS evalue_hits (domain (heap evalue_hits d))))
              < bitscore (heap evalue_hits b)
                / ebitscore (the (DOMAINS evalue_hits (domain (heap evalue_hits b))))"
      and le: "\<forall>d\<in>set after.
              bitscore (heap evalue_hits d)
                / ebitscore (the (DOMAINS evalue_hits (domain (heap evalue_hits d))))
              \<le> bitscore (heap evalue_hits b)
                / ebitscore (the (DOMAINS evalue_hits (domain (heap evalue_hits b))))"
    by blast
  from three_split [OF d] lt le have "b = 1"
    by (auto simp: evalue_hits_def store_def hit_def registry_def)
  with c have v3: "choose_representative_domain evalue_hits [0, 1, 2] ''bitscore'' = Inr 1"
    by simp
  have e: "evalue (heap evalue_hits 1) = 1 / 10000000000"
    by (simp add: evalue_hits_def store_def hit_def)
  show ?thesis by (intro conjI ne v1 e v2 v3)
qed

section \<open>Errors\<close>

lemma concat_group_overlapping_hits:
  "concat (group_overlapping_hits s domains) = sort_key (\<lambda>d. start (heap s d)) domains"
  by (simp add: group_overlapping_hits_def group_loop_concat split: list.splits)

lemma group_overlapping_hits_not_Nil:
  "domains \<noteq> [] \<Longrightarrow> group_overlapping_hits s domains \<noteq> []"
  using sort_key_not_Nil [of domains "\<lambda>d. start (heap s d)"]
  by (simp add: group_overlapping_hits_def group_loop_not_Nil split: list.splits)

lemma choose_unknown_metric:
  "by_metric \<notin> {''bitscore'', ''evalue'', ''length''}
     \<Longrightarrow> choose_representative_domain s grp by_metric = Inl (ValueError MetricExpected)"
  by (simp add: choose_representative_domain_def key_functions_def)

lemma filter_domains_unknown_metric:
  assumes "by_metric \<notin> {''bitscore'', ''evalue'', ''length''}" "domains \<noteq> []"
  shows "filter_domains s domains by_metric cp tp = Inl (ValueError MetricExpected)"
proof -
  obtain g gs where "group_overlapping_hits s domains = g # gs"
    using group_overlapping_hits_not_Nil [OF assms(2), of s] by (cases "group_overlapping_hits s domains") auto
  then show ?thesis
    using choose_unknown_metric [OF assms(1), of s g]
    by (simp add: filter_domains_def)
qed

text \<open>
  C8. A metric other than \<open>bitscore\<close>, \<open>evalue\<close> and \<open>length\<close> makes
  \<open>choose_representative_domain\<close> raise \<open>ValueError\<close> whatever the group and the store
  are (an empty group, hits whose domain is not in \<open>DOMAINS\<close>): no hit is examined
  first. Two hits of different types make \<open>is_fragmented_domain\<close> raise \<open>ValueError\<close>
  whatever their positions and \<open>DOMAINS\<close> are: no length or span is computed first.
  Nothing catches the error of the metric: \<open>filter_domains\<close> raises it for every input
  that is not empty, and \<open>filter_results\<close> raises whatever \<open>filter_domains\<close> raises for
  a query.
\<close>

theorem invalid_arguments_raise:
  "(by_metric \<notin> {''bitscore'', ''evalue'', ''length''} \<longrightarrow>
      choose_representative_domain s grp by_metric = Inl (ValueError MetricExpected))
   \<and> (type (heap s one) \<noteq> type (heap s two) \<longrightarrow>
      is_fragmented_domain s one two cp tp = Inl (ValueError SameTypeExpected))
   \<and> (by_metric \<notin> {''bitscore'', ''evalue'', ''length''} \<and> domains \<noteq> [] \<longrightarrow>
      filter_domains s domains by_metric cp tp = Inl (ValueError MetricExpected))
   \<and> (filter_domains s domains by_metric cp tp = Inl e \<longrightarrow>
      filter_results s ((name, domains) # items) by_metric cp tp = Inl e)"
proof (intro conjI impI)
  assume "by_metric \<notin> {''bitscore'', ''evalue'', ''length''}"
  then show "choose_representative_domain s grp by_metric = Inl (ValueError MetricExpected)"
    by (rule choose_unknown_metric)
next
  assume "type (heap s one) \<noteq> type (heap s two)"
  then show "is_fragmented_domain s one two cp tp = Inl (ValueError SameTypeExpected)"
    by (simp add: is_fragmented_domain_def)
next
  assume "by_metric \<notin> {''bitscore'', ''evalue'', ''length''} \<and> domains \<noteq> []"
  then show "filter_domains s domains by_metric cp tp = Inl (ValueError MetricExpected)"
    using filter_domains_unknown_metric by blast
next
  assume "filter_domains s domains by_metric cp tp = Inl e"
  then show "filter_results s ((name, domains) # items) by_metric cp tp = Inl e"
    by (simp add: filter_results_def)
qed

theorem invalid_arguments_raise_witness:
  "''score'' \<notin> {''bitscore'', ''evalue'', ''length''}
   \<and> choose_representative_domain mixed_types [] ''score'' = Inl (ValueError MetricExpected)
   \<and> choose_representative_domain mixed_types [0, 1] ''score''
       = Inl (ValueError MetricExpected)
   \<and> type (heap mixed_types 0) \<noteq> type (heap mixed_types 1)
   \<and> DOMAINS mixed_types (domain (heap mixed_types 0)) = None
   \<and> is_fragmented_domain mixed_types 0 1 (1 / 2) (1 / 10)
       = Inl (ValueError SameTypeExpected)
   \<and> [0::nat, 1] \<noteq> []
   \<and> filter_domains mixed_types [0, 1] ''score'' (1 / 2) (1 / 10)
       = Inl (ValueError MetricExpected)
   \<and> filter_results mixed_types [(''q1'', [0, 1]), (''q2'', [])] ''score'' (1 / 2) (1 / 10)
       = Inl (ValueError MetricExpected)"
proof -
  have m: "''score'' \<notin> {''bitscore'', ''evalue'', ''length''}" by simp
  have t: "type (heap mixed_types 0) \<noteq> type (heap mixed_types 1)"
    by (simp add: mixed_types_def store_def hit_def)
  have k: "DOMAINS mixed_types (domain (heap mixed_types 0)) = None"
    by (simp add: mixed_types_def store_def hit_def registry_def)
  have n: "[0::nat, 1] \<noteq> []" by simp
  note r = invalid_arguments_raise
    [of "''score''" mixed_types _ 0 1 "1 / 2" "1 / 10" "[0, 1]" "ValueError MetricExpected"
        "''q1''" "[(''q2'', [])]"]
  have c0: "choose_representative_domain mixed_types [] ''score''
              = Inl (ValueError MetricExpected)"
    using r [of "[]"] m by blast
  have c1: "choose_representative_domain mixed_types [0, 1] ''score''
              = Inl (ValueError MetricExpected)"
    using r [of "[0, 1]"] m by blast
  have f: "is_fragmented_domain mixed_types 0 1 (1 / 2) (1 / 10)
             = Inl (ValueError SameTypeExpected)"
    using r [of "[]"] t by blast
  have d: "filter_domains mixed_types [0, 1] ''score'' (1 / 2) (1 / 10)
             = Inl (ValueError MetricExpected)"
    using r [of "[]"] m n by blast
  have q: "filter_results mixed_types [(''q1'', [0, 1]), (''q2'', [])] ''score'' (1 / 2)
             (1 / 10) = Inl (ValueError MetricExpected)"
    using r [of "[]"] d by blast
  show ?thesis by (intro conjI m c0 c1 t k f n d q)
qed

section \<open>What filtering writes\<close>

lemma slice_pairD:
  assumes "drop (i - 1) (take (i + 1) ds) = [p, c]"
  shows "1 \<le> i \<and> i < length ds \<and> p = ds ! (i - 1) \<and> c = ds ! i"
proof -
  have l: "length (drop (i - 1) (take (i + 1) ds)) = 2" using assms by simp
  then have "min (i + 1) (length ds) - (i - 1) = 2" by simp
  then have i: "1 \<le> i \<and> i < length ds" by arith
  then have "drop (i - 1) (take (i + 1) ds) = [ds ! (i - 1), ds ! i]"
    by (intro slice_pair) simp_all
  with assms i show ?thesis by simp
qed

lemma set_end_other: "r \<noteq> p \<Longrightarrow> heap (set_end s p e) r = heap s r"
  by (simp add: set_end_def)

lemma set_end_only_end:
  "(heap (set_end s p e) r)\<lparr>end_pos := x\<rparr> = (heap s r)\<lparr>end_pos := x\<rparr>"
  by (simp add: set_end_def)

lemma key_values_snd: "key_values key xs = Inr kds \<Longrightarrow> map snd kds = xs"
  by (induction xs arbitrary: kds) (auto split: sum.splits)

lemma sorted_by_key_set: "sorted_by_key key rv xs = Inr ys \<Longrightarrow> set ys = set xs"
proof -
  assume a: "sorted_by_key key rv xs = Inr ys"
  then obtain kds where k: "key_values key xs = Inr kds"
    and y: "ys = map snd (if rv then rev (sort_key fst (rev kds)) else sort_key fst kds)"
    by (auto simp: sorted_by_key_def split: sum.splits)
  have "set ys = snd ` set kds" using y by auto
  also have "\<dots> = set (map snd kds)" by simp
  also have "\<dots> = set xs" using key_values_snd [OF k] by simp
  finally show ?thesis .
qed

lemma choose_member: "choose_representative_domain s grp m = Inr d \<Longrightarrow> d \<in> set grp"
proof -
  assume a: "choose_representative_domain s grp m = Inr d"
  then obtain key rv ys where "sorted_by_key key rv grp = Inr (d # ys)"
    by (auto simp: choose_representative_domain_def
             split: option.splits prod.splits sum.splits list.splits)
  from sorted_by_key_set [OF this] show ?thesis by auto
qed

lemma representatives_members:
  "representatives s gs m = Inr ds \<Longrightarrow> set ds \<subseteq> set (concat gs) \<and> length ds = length gs"
proof (induction gs arbitrary: ds)
  case Nil
  then show ?case by simp
next
  case (Cons g gs)
  then obtain d ds' where d: "choose_representative_domain s g m = Inr d"
    and r: "representatives s gs m = Inr ds'" and ds: "ds = d # ds'"
    by (auto split: sum.splits)
  from Cons.IH [OF r] choose_member [OF d] ds show ?case by auto
qed

lemma filter_domains_representatives:
  assumes "filter_domains s domains by_metric cp tp = Inr (s', out)"
  shows "\<exists>reps. representatives s (group_overlapping_hits s domains) by_metric = Inr reps
           \<and> scan_loop 1 (length reps) s reps cp tp = Inr (s', out)
           \<and> set reps \<subseteq> set domains
           \<and> length reps = length (group_overlapping_hits s domains)"
proof -
  from assms obtain reps
    where r: "representatives s (group_overlapping_hits s domains) by_metric = Inr reps"
      and sc: "scan_loop 1 (length reps) s reps cp tp = Inr (s', out)"
    by (auto simp: filter_domains_def split: sum.splits)
  from representatives_members [OF r]
  have "set reps \<subseteq> set domains" "length reps = length (group_overlapping_hits s domains)"
    by (simp_all add: concat_group_overlapping_hits)
  with r sc show ?thesis by blast
qed

lemma outcome_simps [simp]:
  "outcome (s, Inl e) = Inl e"
  "outcome (s, Inr a) = Inr (s, a)"
  by (simp_all add: outcome_def)

lemma scan_loop_outcome:
  "scan_loop i tot s ds cp tp = outcome (scan_loop_store i tot s ds cp tp)"
proof (induction "(tot - i) + length ds" arbitrary: i s ds rule: less_induct)
  case less
  show ?case
  proof (cases "i < tot \<and> i + 1 \<noteq> tot")
    case False
    then show ?thesis
      by (subst scan_loop.simps, subst scan_loop_store.simps) auto
  next
    case True
    then have c: "i < tot" "i + 1 \<noteq> tot" by simp_all
    show ?thesis
    proof (cases "\<exists>p cur. drop (i - 1) (take (i + 1) ds) = [p, cur]")
      case False
      then show ?thesis
        using c
        by (subst scan_loop.simps, subst scan_loop_store.simps)
           (auto split: list.splits)
    next
      case True
      then obtain p cur where sl: "drop (i - 1) (take (i + 1) ds) = [p, cur]" by blast
      from slice_pairD [OF sl] have i: "i < length ds" by simp
      have adv: "scan_loop (i + 1) tot s ds cp tp
                   = outcome (scan_loop_store (i + 1) tot s ds cp tp)"
        by (rule less.hyps) (use c in simp)
      have mrg: "scan_loop i tot (set_end s p (end_pos (heap s cur))) (del_at i ds) cp tp
                   = outcome (scan_loop_store i tot (set_end s p (end_pos (heap s cur)))
                       (del_at i ds) cp tp)"
        by (rule less.hyps) (use i in \<open>simp add: length_del_at\<close>)
      show ?thesis
        using c sl adv mrg
        by (subst scan_loop.simps, subst scan_loop_store.simps)
           (simp split: sum.splits bool.splits)
    qed
  qed
qed

lemma filter_domains_outcome:
  "filter_domains s domains by_metric cp tp
     = outcome (filter_domains_store s domains by_metric cp tp)"
  by (simp add: filter_domains_def filter_domains_store_def scan_loop_outcome
        split: sum.splits)

lemma filter_results_loop_outcome:
  "filter_results_loop s filtered logged items by_metric cp tp
     = outcome (filter_results_loop_store s filtered logged items by_metric cp tp)"
proof (induction items arbitrary: s filtered logged)
  case Nil
  then show ?case by simp
next
  case (Cons item items)
  obtain name domains where item: "item = (name, domains)" by (cases item)
  obtain s1 res where f: "filter_domains_store s domains by_metric cp tp = (s1, res)"
    by (cases "filter_domains_store s domains by_metric cp tp")
  show ?case
  proof (cases res)
    case (Inl e)
    then show ?thesis using f by (simp add: item filter_domains_outcome)
  next
    case (Inr out)
    have "filter_results_loop s filtered logged (item # items) by_metric cp tp
            = filter_results_loop s1 (filtered(name \<mapsto> out))
                (if out = [] then logged @ [name] else logged) items by_metric cp tp"
      using f Inr by (simp add: item filter_domains_outcome)
    also have "\<dots> = outcome (filter_results_loop_store s1 (filtered(name \<mapsto> out))
                (if out = [] then logged @ [name] else logged) items by_metric cp tp)"
      by (rule Cons.IH)
    also have "\<dots> = outcome (filter_results_loop_store s filtered logged (item # items)
                by_metric cp tp)"
      using f Inr by (simp add: item)
    finally show ?thesis .
  qed
qed

lemma filter_results_outcome:
  "filter_results s results by_metric cp tp
     = outcome (filter_results_store s results by_metric cp tp)"
  by (simp add: filter_results_def filter_results_store_def filter_results_loop_outcome)


lemma scan_loop_store_frame:
  assumes "scan_loop_store i tot s ds cp tp = (s', res)"
  shows "DOMAINS s' = DOMAINS s
       \<and> (\<forall>r. heap s' r = (heap s r)\<lparr>end_pos := end_pos (heap s' r)\<rparr>)
       \<and> (\<forall>r. r \<notin> set ds \<longrightarrow> heap s' r = heap s r)"
  using assms
proof (induction "(tot - i) + length ds" arbitrary: i s ds rule: less_induct)
  case less
  show ?case
  proof (cases "i < tot \<and> i + 1 \<noteq> tot")
    case False
    then have "scan_loop_store i tot s ds cp tp = (s, Inr ds)"
      by (subst scan_loop_store.simps) auto
    with less.prems show ?thesis by simp
  next
    case True
    then have c: "i < tot" "i + 1 \<noteq> tot" by simp_all
    show ?thesis
    proof (cases "\<exists>p cur. drop (i - 1) (take (i + 1) ds) = [p, cur]")
      case False
      then have "scan_loop_store i tot s ds cp tp = (s, Inl (ValueError NotEnoughValues))"
        using c by (subst scan_loop_store.simps) (auto split: list.splits)
      with less.prems show ?thesis by simp
    next
      case True
      then obtain p cur where sl: "drop (i - 1) (take (i + 1) ds) = [p, cur]" by blast
      from slice_pairD [OF sl] have i: "1 \<le> i" "i < length ds" and p: "p = ds ! (i - 1)"
        by simp_all
      have pin: "p \<in> set ds" using p i by simp
      let ?s = "set_end s p (end_pos (heap s cur))"
      from less.prems c sl
      have step: "s' = s
                 \<or> scan_loop_store (i + 1) tot s ds cp tp = (s', res)
                 \<or> scan_loop_store i tot ?s (del_at i ds) cp tp = (s', res)"
        by (subst (asm) scan_loop_store.simps)
           (auto split: if_splits sum.splits bool.splits)
      from step show ?thesis
      proof (elim disjE)
        assume "s' = s"
        then show ?thesis by simp
      next
        assume a: "scan_loop_store (i + 1) tot s ds cp tp = (s', res)"
        show ?thesis
          by (rule less.hyps [OF _ a]) (use c in auto)
      next
        assume a: "scan_loop_store i tot ?s (del_at i ds) cp tp = (s', res)"
        have IH: "DOMAINS s' = DOMAINS ?s
            \<and> (\<forall>r. heap s' r = (heap ?s r)\<lparr>end_pos := end_pos (heap s' r)\<rparr>)
            \<and> (\<forall>r. r \<notin> set (del_at i ds) \<longrightarrow> heap s' r = heap ?s r)"
          by (rule less.hyps [OF _ a]) (use i in \<open>simp add: length_del_at\<close>)
        have 1: "DOMAINS s' = DOMAINS s" using IH by simp
        have 2: "\<forall>r. heap s' r = (heap s r)\<lparr>end_pos := end_pos (heap s' r)\<rparr>"
          using IH set_end_only_end by metis
        have 3: "\<forall>r. r \<notin> set ds \<longrightarrow> heap s' r = heap s r"
        proof (intro allI impI)
          fix r assume r: "r \<notin> set ds"
          then have "r \<notin> set (del_at i ds)" using set_del_at [of i ds] by blast
          then have "heap s' r = heap ?s r" using IH by blast
          moreover have "r \<noteq> p" using r pin by blast
          ultimately show "heap s' r = heap s r" by (simp add: set_end_other)
        qed
        from 1 2 3 show ?thesis by blast
      qed
    qed
  qed
qed

lemma filter_domains_store_frame:
  assumes "filter_domains_store s domains by_metric cp tp = (s', res)"
  shows "DOMAINS s' = DOMAINS s
       \<and> (\<forall>r. heap s' r = (heap s r)\<lparr>end_pos := end_pos (heap s' r)\<rparr>)
       \<and> (\<forall>r. r \<notin> set domains \<longrightarrow> heap s' r = heap s r)"
proof (cases "representatives s (group_overlapping_hits s domains) by_metric")
  case (Inl e)
  with assms have "s' = s" by (simp add: filter_domains_store_def)
  then show ?thesis by simp
next
  case (Inr reps)
  with assms have sc: "scan_loop_store 1 (length reps) s reps cp tp = (s', res)"
    by (simp add: filter_domains_store_def)
  from representatives_members [OF Inr] have "set reps \<subseteq> set domains"
    by (simp add: concat_group_overlapping_hits)
  with scan_loop_store_frame [OF sc] show ?thesis by blast
qed

lemma filter_results_loop_store_frame:
  assumes "filter_results_loop_store s filtered logged items by_metric cp tp = (s', res)"
  shows "DOMAINS s' = DOMAINS s
       \<and> (\<forall>r. heap s' r = (heap s r)\<lparr>end_pos := end_pos (heap s' r)\<rparr>)
       \<and> (\<forall>r. r \<notin> \<Union>(set ` snd ` set items) \<longrightarrow> heap s' r = heap s r)"
  using assms
proof (induction items arbitrary: s filtered logged)
  case Nil
  then show ?case by simp
next
  case (Cons item items)
  obtain name domains where item: "item = (name, domains)" by (cases item)
  obtain s1 r1 where f: "filter_domains_store s domains by_metric cp tp = (s1, r1)"
    by (cases "filter_domains_store s domains by_metric cp tp")
  note f1 = filter_domains_store_frame [OF f]
  show ?case
  proof (cases r1)
    case (Inl e)
    with Cons.prems f item have "s' = s1" by simp
    with f1 show ?thesis by (auto simp: item)
  next
    case (Inr out)
    with Cons.prems f item
    have rest: "filter_results_loop_store s1 (filtered(name \<mapsto> out))
                   (if out = [] then logged @ [name] else logged) items by_metric cp tp
                 = (s', res)"
      by simp
    note f2 = Cons.IH [OF rest]
    have 1: "DOMAINS s' = DOMAINS s" using f1 f2 by simp
    have 2: "\<forall>r. heap s' r = (heap s r)\<lparr>end_pos := end_pos (heap s' r)\<rparr>"
    proof
      fix r
      have a: "heap s' r = (heap s1 r)\<lparr>end_pos := end_pos (heap s' r)\<rparr>" using f2 by blast
      have b: "heap s1 r = (heap s r)\<lparr>end_pos := end_pos (heap s1 r)\<rparr>" using f1 by blast
      show "heap s' r = (heap s r)\<lparr>end_pos := end_pos (heap s' r)\<rparr>"
        by (subst a, subst b) simp
    qed
    have 3: "\<forall>r. r \<notin> \<Union>(set ` snd ` set (item # items)) \<longrightarrow> heap s' r = heap s r"
      using f1 f2 item by auto
    from 1 2 3 show ?thesis by blast
  qed
qed

text \<open>
  C9. \<open>filter_domains\<close> and \<open>filter_results\<close> are the outcomes of
  \<open>filter_domains_store\<close> and \<open>filter_results_store\<close>. Whether the call returns or
  raises, filtering one query leaves \<open>DOMAINS\<close> as it was, leaves every attribute other
  than \<open>end\<close> of every hit as it was, and leaves every hit outside the query's own list
  entirely as it was. Grouping and selection write nothing: when they raise, the store
  is the one the call started with; otherwise the scan starts from that store, and only
  representatives, which are hits of the query, are written to. \<open>filter_results\<close>,
  whether it returns or raises, leaves \<open>DOMAINS\<close>, every attribute other than \<open>end\<close>
  and every hit outside the lists of its queries as they were.
\<close>

theorem filtering_frame:
  "filter_domains s domains by_metric cp tp
     = outcome (filter_domains_store s domains by_metric cp tp)
   \<and> filter_results s results by_metric cp tp
     = outcome (filter_results_store s results by_metric cp tp)
   \<and> (filter_domains_store s domains by_metric cp tp = (s', res) \<longrightarrow>
      DOMAINS s' = DOMAINS s
      \<and> (\<forall>r. heap s' r = (heap s r)\<lparr>end_pos := end_pos (heap s' r)\<rparr>)
      \<and> (\<forall>r. r \<notin> set domains \<longrightarrow> heap s' r = heap s r)
      \<and> (\<forall>e. representatives s (group_overlapping_hits s domains) by_metric = Inl e \<longrightarrow>
            s' = s \<and> res = Inl e)
      \<and> (\<forall>reps. representatives s (group_overlapping_hits s domains) by_metric = Inr reps \<longrightarrow>
            scan_loop_store 1 (length reps) s reps cp tp = (s', res)
            \<and> set reps \<subseteq> set domains
            \<and> (\<forall>r. r \<notin> set reps \<longrightarrow> heap s' r = heap s r)))
   \<and> (filter_results_store s results by_metric cp tp = (s'', res') \<longrightarrow>
      DOMAINS s'' = DOMAINS s
      \<and> (\<forall>r. heap s'' r = (heap s r)\<lparr>end_pos := end_pos (heap s'' r)\<rparr>)
      \<and> (\<forall>r. r \<notin> \<Union>(set ` snd ` set results) \<longrightarrow> heap s'' r = heap s r))"
proof (intro conjI impI allI)
  show "filter_domains s domains by_metric cp tp
     = outcome (filter_domains_store s domains by_metric cp tp)"
    by (rule filter_domains_outcome)
  show "filter_results s results by_metric cp tp
     = outcome (filter_results_store s results by_metric cp tp)"
    by (rule filter_results_outcome)
next
  assume a: "filter_domains_store s domains by_metric cp tp = (s', res)"
  note f = filter_domains_store_frame [OF a]
  show "DOMAINS s' = DOMAINS s" using f by blast
  show "\<And>r. heap s' r = (heap s r)\<lparr>end_pos := end_pos (heap s' r)\<rparr>" using f by blast
  show "\<And>r. r \<notin> set domains \<Longrightarrow> heap s' r = heap s r" using f by blast
  show "\<And>e. representatives s (group_overlapping_hits s domains) by_metric = Inl e \<Longrightarrow> s' = s"
    using a by (simp add: filter_domains_store_def)
  show "\<And>e. representatives s (group_overlapping_hits s domains) by_metric = Inl e
          \<Longrightarrow> res = Inl e"
    using a by (simp add: filter_domains_store_def)
  show sc: "\<And>reps. representatives s (group_overlapping_hits s domains) by_metric = Inr reps
          \<Longrightarrow> scan_loop_store 1 (length reps) s reps cp tp = (s', res)"
    using a by (simp add: filter_domains_store_def)
  show "\<And>reps. representatives s (group_overlapping_hits s domains) by_metric = Inr reps
          \<Longrightarrow> set reps \<subseteq> set domains"
    using representatives_members by (fastforce simp: concat_group_overlapping_hits)
  show "\<And>reps r. representatives s (group_overlapping_hits s domains) by_metric = Inr reps
          \<Longrightarrow> r \<notin> set reps \<Longrightarrow> heap s' r = heap s r"
    using scan_loop_store_frame [OF sc] by blast
next
  assume a: "filter_results_store s results by_metric cp tp = (s'', res')"
  note f = filter_results_loop_store_frame [OF a [unfolded filter_results_store_def]]
  show "DOMAINS s'' = DOMAINS s" using f by blast
  show "\<And>r. heap s'' r = (heap s r)\<lparr>end_pos := end_pos (heap s'' r)\<rparr>" using f by blast
  show "\<And>r. r \<notin> \<Union>(set ` snd ` set results) \<Longrightarrow> heap s'' r = heap s r" using f by blast
qed


theorem filtering_frame_witness:
  "filter_domains_store two_queries [0, 1, 2, 3] ''evalue'' (1 / 2) (1 / 10)
     = ((set_end (set_end two_queries 0 980) 2 2980), Inl (ValueError NotEnoughValues))
   \<and> filter_domains two_queries [0, 1, 2, 3] ''evalue'' (1 / 2) (1 / 10)
     = Inl (ValueError NotEnoughValues)
   \<and> filter_results_store two_queries [(''q1'', [0, 1, 2, 3]), (''q2'', [4])] ''evalue''
       (1 / 2) (1 / 10)
     = ((set_end (set_end two_queries 0 980) 2 2980), Inl (ValueError NotEnoughValues))
   \<and> filter_results two_queries [(''q1'', [0, 1, 2, 3]), (''q2'', [4])] ''evalue''
       (1 / 2) (1 / 10)
     = Inl (ValueError NotEnoughValues)
   \<and> DOMAINS (set_end (set_end two_queries 0 980) 2 2980) = DOMAINS two_queries
   \<and> heap (set_end (set_end two_queries 0 980) 2 2980) 0
       = (heap two_queries 0)\<lparr>end_pos := end_pos (heap (set_end (set_end two_queries 0 980) 2 2980) 0)\<rparr>
   \<and> end_pos (heap two_queries 0) = 400
   \<and> end_pos (heap (set_end (set_end two_queries 0 980) 2 2980) 0) = 980
   \<and> end_pos (heap two_queries 2) = 2400
   \<and> end_pos (heap (set_end (set_end two_queries 0 980) 2 2980) 2) = 2980
   \<and> 4 \<notin> set [0::nat, 1, 2, 3]
   \<and> heap (set_end (set_end two_queries 0 980) 2 2980) 4 = heap two_queries 4"
proof -
  have f: "filter_domains_store two_queries [0, 1, 2, 3] ''evalue'' (1 / 2) (1 / 10)
     = ((set_end (set_end two_queries 0 980) 2 2980), Inl (ValueError NotEnoughValues))"
    by (simp add: filter_domains_store_def group_overlapping_hits_def two_queries_def
      store_def hit_def registry_def choose_representative_domain_def key_functions_def
      sorted_by_key_def scan_loop_store.simps is_fragmented_domain_def len_def set_end_def
      del_at_def)
  have g: "filter_results_store two_queries [(''q1'', [0, 1, 2, 3]), (''q2'', [4])] ''evalue''
       (1 / 2) (1 / 10)
     = ((set_end (set_end two_queries 0 980) 2 2980), Inl (ValueError NotEnoughValues))"
    using f by (simp add: filter_results_store_def)
  note t = filtering_frame
  have fd: "filter_domains two_queries [0, 1, 2, 3] ''evalue'' (1 / 2) (1 / 10)
     = Inl (ValueError NotEnoughValues)"
    using t [THEN conjunct1, of two_queries "[0, 1, 2, 3]" "''evalue''" "1 / 2" "1 / 10"] f
    by simp
  have fr: "filter_results two_queries [(''q1'', [0, 1, 2, 3]), (''q2'', [4])] ''evalue''
       (1 / 2) (1 / 10)
     = Inl (ValueError NotEnoughValues)"
    using t [THEN conjunct2, THEN conjunct1, of two_queries
             "[(''q1'', [0, 1, 2, 3]), (''q2'', [4])]" "''evalue''" "1 / 2" "1 / 10"] g
    by simp
  note fra = t [THEN conjunct2, THEN conjunct2, THEN conjunct1, THEN mp, OF f]
  have d: "DOMAINS (set_end (set_end two_queries 0 980) 2 2980) = DOMAINS two_queries" using fra by blast
  have h0: "heap (set_end (set_end two_queries 0 980) 2 2980) 0 = (heap two_queries 0)\<lparr>end_pos := end_pos (heap (set_end (set_end two_queries 0 980) 2 2980) 0)\<rparr>"
    using fra by blast
  have n: "4 \<notin> set [0::nat, 1, 2, 3]" by simp
  have h4: "heap (set_end (set_end two_queries 0 980) 2 2980) 4 = heap two_queries 4" using fra n by blast
  have e: "end_pos (heap two_queries 0) = 400" "end_pos (heap (set_end (set_end two_queries 0 980) 2 2980) 0) = 980"
    "end_pos (heap two_queries 2) = 2400" "end_pos (heap (set_end (set_end two_queries 0 980) 2 2980) 2) = 2980"
    by (simp_all add: set_end_def two_queries_def store_def hit_def)
  show ?thesis by (intro conjI f fd g fr d h0 e n h4)
qed

section \<open>Queries without hits\<close>

lemma filter_domains_Nil: "filter_domains s [] by_metric cp tp = Inr (s, [])"
  by (simp add: filter_domains_def group_overlapping_hits_def scan_loop.simps)

lemma filter_domains_empty_output:
  assumes "filter_domains s domains by_metric cp tp = Inr (s', [])"
  shows "domains = []"
proof (rule ccontr)
  assume ne: "domains \<noteq> []"
  from filter_domains_representatives [OF assms] obtain reps
    where sc: "scan_loop 1 (length reps) s reps cp tp = Inr (s', [])"
      and l: "length reps = length (group_overlapping_hits s domains)"
    by blast
  have "group_overlapping_hits s domains \<noteq> []"
    using ne by (rule group_overlapping_hits_not_Nil)
  then have one: "1 \<le> length reps" using l by (cases "group_overlapping_hits s domains") simp_all
  from scan_loop_returns_at_most_one_deleted [OF _ one sc] have "length reps = 1"
    using one by simp
  then have "scan_loop 1 (length reps) s reps cp tp = Inr (s, reps)"
    by (subst scan_loop.simps) simp
  with sc one show False by auto
qed

lemma filter_results_loop_all_empty:
  "filter_results_loop s filtered logged (map (\<lambda>n. (n, [])) names) by_metric cp tp
     = Inr (s, (\<lambda>n. if n \<in> set names then Some [] else filtered n), logged @ names)"
proof (induction names arbitrary: filtered logged)
  case Nil
  then show ?case by simp
next
  case (Cons a names)
  have "(\<lambda>n. if n \<in> set names then Some [] else (filtered(a \<mapsto> [])) n)
          = (\<lambda>n. if n \<in> set (a # names) then Some [] else filtered n)"
    by auto
  then show ?case
    by (simp add: filter_domains_Nil Cons.IH)
qed

lemma filter_results_loop_keys:
  assumes "filter_results_loop s filtered logged items by_metric cp tp
             = Inr (s', filtered', logged')"
  shows "dom filtered' = dom filtered \<union> fst ` set items
       \<and> set logged \<subseteq> set logged'
       \<and> (\<forall>n. n \<notin> fst ` set items \<longrightarrow> filtered' n = filtered n)
       \<and> (distinct (map fst items) \<longrightarrow>
            (\<forall>n. (n, []) \<in> set items \<longrightarrow> filtered' n = Some [] \<and> n \<in> set logged'))"
  using assms
proof (induction items arbitrary: s filtered logged)
  case Nil
  then show ?case by simp
next
  case (Cons item items)
  obtain name domains where item: "item = (name, domains)" by (cases item)
  from Cons.prems item obtain s1 out
    where f: "filter_domains s domains by_metric cp tp = Inr (s1, out)"
      and rest: "filter_results_loop s1 (filtered(name \<mapsto> out))
                   (if out = [] then logged @ [name] else logged) items by_metric cp tp
                 = Inr (s', filtered', logged')"
    by (auto split: sum.splits)
  note IH = Cons.IH [OF rest]
  have 1: "dom filtered' = dom filtered \<union> fst ` set (item # items)"
    using IH item by auto
  have 2: "set logged \<subseteq> set logged'" using IH by (auto split: if_splits)
  have 3: "\<forall>n. n \<notin> fst ` set (item # items) \<longrightarrow> filtered' n = filtered n"
    using IH item by auto
  have 4: "filtered' n = Some [] \<and> n \<in> set logged'"
    if dist: "distinct (map fst (item # items))" and n: "(n, []) \<in> set (item # items)" for n
  proof (cases "(n, []) = item")
    case True
    then have nm: "name = n" "domains = []" using item by simp_all
    then have out: "out = []" using f by (simp add: filter_domains_Nil)
    have "n \<notin> fst ` set items" using dist item nm by auto
    then have "filtered' n = (filtered(name \<mapsto> out)) n" using IH by blast
    moreover have "n \<in> set logged'" using IH out nm by auto
    ultimately show ?thesis using nm out by simp
  next
    case False
    then have "(n, []) \<in> set items" using n by simp
    moreover have "distinct (map fst items)" using dist by simp
    ultimately show ?thesis using IH by blast
  qed
  from 1 2 3 4 show ?case by blast
qed

text \<open>
  C7. A query without hits never makes the filtering fail: \<open>filter_domains\<close> returns the
  empty list for it under every metric and every percentage, and a result set of such
  queries only is returned with every name mapped to the empty list and logged. A
  non-empty hit list is never filtered down to the empty list. Whenever \<open>filter_results\<close>
  returns, the names of the output are the names of the input, and every query without
  hits is in the output, mapped to the empty list, and logged (the names of a dictionary
  are distinct).
\<close>

theorem filter_results_keeps_empty_queries:
  "filter_domains s [] by_metric cp tp = Inr (s, [])
   \<and> (filter_domains s domains by_metric cp tp = Inr (s', []) \<longrightarrow> domains = [])
   \<and> filter_results s (map (\<lambda>n. (n, [])) names) by_metric cp tp
       = Inr (s, (\<lambda>n. if n \<in> set names then Some [] else None), names)
   \<and> (filter_results s results by_metric cp tp = Inr (s'', filtered, logged) \<longrightarrow>
        dom filtered = fst ` set results
        \<and> (distinct (map fst results) \<longrightarrow>
             (\<forall>name. (name, []) \<in> set results \<longrightarrow>
                filtered name = Some [] \<and> name \<in> set logged)))"
proof (intro conjI impI)
  show "filter_domains s [] by_metric cp tp = Inr (s, [])" by (rule filter_domains_Nil)
next
  assume "filter_domains s domains by_metric cp tp = Inr (s', [])"
  then show "domains = []" by (rule filter_domains_empty_output)
next
  show "filter_results s (map (\<lambda>n. (n, [])) names) by_metric cp tp
       = Inr (s, (\<lambda>n. if n \<in> set names then Some [] else None), names)"
    by (simp add: filter_results_def filter_results_loop_all_empty)
next
  assume a: "filter_results s results by_metric cp tp = Inr (s'', filtered, logged)"
  note k = filter_results_loop_keys [OF a [unfolded filter_results_def]]
  show "dom filtered = fst ` set results" using k by simp
  assume "distinct (map fst results)"
  then show "\<forall>name. (name, []) \<in> set results \<longrightarrow>
                filtered name = Some [] \<and> name \<in> set logged"
    using k by blast
qed

theorem filter_results_keeps_empty_queries_witness:
  "filter_results two_fragments [(''q1'', [0, 1]), (''q2'', [])] ''evalue'' (1 / 2) (1 / 10)
     = Inr (two_fragments, [''q1'' \<mapsto> [0, 1], ''q2'' \<mapsto> []], [''q2''])
   \<and> distinct (map fst [(''q1'', [0::nat, 1]), (''q2'', [])])
   \<and> (''q2'', []) \<in> set [(''q1'', [0::nat, 1]), (''q2'', [])]
   \<and> dom [''q1'' \<mapsto> [0::nat, 1], ''q2'' \<mapsto> []] = {''q1'', ''q2''}
   \<and> [''q1'' \<mapsto> [0::nat, 1], ''q2'' \<mapsto> []] ''q2'' = Some []
   \<and> ''q2'' \<in> set [''q2'']"
proof -
  have d: "filter_domains two_fragments [0, 1] ''evalue'' (1 / 2) (1 / 10)
       = Inr (two_fragments, [0, 1])"
    by (simp add: filter_domains_def group_overlapping_hits_def two_fragments_def store_def
      hit_def registry_def choose_representative_domain_def key_functions_def
      sorted_by_key_def scan_loop.simps)
  have f: "filter_results two_fragments [(''q1'', [0, 1]), (''q2'', [])] ''evalue'' (1 / 2)
             (1 / 10)
     = Inr (two_fragments, [''q1'' \<mapsto> [0, 1], ''q2'' \<mapsto> []], [''q2''])"
    using d by (simp add: filter_results_def filter_domains_Nil)
  have di: "distinct (map fst [(''q1'', [0::nat, 1]), (''q2'', [])])" by simp
  have m: "(''q2'', []) \<in> set [(''q1'', [0::nat, 1]), (''q2'', [])]" by simp
  note k = filter_results_keeps_empty_queries
    [THEN conjunct2, THEN conjunct2, THEN conjunct2, THEN mp, OF f]
  have dm: "dom [''q1'' \<mapsto> [0::nat, 1], ''q2'' \<mapsto> []] = {''q1'', ''q2''}"
    using k by auto
  have q: "[''q1'' \<mapsto> [0::nat, 1], ''q2'' \<mapsto> []] ''q2'' = Some [] \<and> ''q2'' \<in> set [''q2'']"
    using k di m by blast
  show ?thesis using f di m dm q by (intro conjI) simp_all
qed

section \<open>The first merge of a scan\<close>

lemmas eval_defs = filter_domains_def group_overlapping_hits_def store_def
      hit_def registry_def choose_representative_domain_def key_functions_def
      sorted_by_key_def scan_loop.simps is_fragmented_domain_def len_def set_end_def
      del_at_def










text \<open>
  C10 says that the last adjacent pair of the representatives is never tested. That
  fails once an earlier pair has merged: the two stores below differ in the last hit
  only, the first pair merges in both, and the outcome depends on whether the last pair
  is fragmented (the second deletion raises, see C3).
\<close>

theorem last_pair_tested_after_merge:
  "heap four_hits 0 = heap four_hits_last_long 0
   \<and> heap four_hits 1 = heap four_hits_last_long 1
   \<and> heap four_hits 2 = heap four_hits_last_long 2
   \<and> DOMAINS four_hits = DOMAINS four_hits_last_long
   \<and> representatives four_hits (group_overlapping_hits four_hits [0, 1, 2, 3]) ''evalue''
       = Inr [0, 1, 2, 3]
   \<and> representatives four_hits_last_long
         (group_overlapping_hits four_hits_last_long [0, 1, 2, 3]) ''evalue''
       = Inr [0, 1, 2, 3]
   \<and> is_fragmented_domain four_hits 2 3 (1 / 2) (1 / 10) = Inr True
   \<and> is_fragmented_domain four_hits_last_long 2 3 (1 / 2) (1 / 10) = Inr False
   \<and> filter_domains four_hits [0, 1, 2, 3] ''evalue'' (1 / 2) (1 / 10)
       = Inl (ValueError NotEnoughValues)
   \<and> filter_domains four_hits_last_long [0, 1, 2, 3] ''evalue'' (1 / 2) (1 / 10)
       = Inr (set_end four_hits_last_long 0 980, [0, 2, 3])"
  by (simp add: eval_defs four_hits_def four_hits_last_long_def)

end
